theory Spec2Isabelle
  imports Complex_Main "HOL-Library.Word" "HOL-Library.Multiset"
begin

unbundle bit_operations_syntax

section \<open>Data model of parallel.c\<close>

text \<open>
  C values are modelled as follows.
  \<^item> \<open>unsigned int\<close> is a \<open>32 word\<close>: \<open><<\<close> is \<open>push_bit\<close>, \<open>>>\<close> is \<open>drop_bit\<close>,
    \<open>^\<close> is \<open>XOR\<close>, \<open>~\<close> is \<open>NOT\<close>, \<open>%\<close> is \<open>mod\<close>; all of them wrap at 32 bits.
  \<^item> \<open>int\<close> (the sizes \<open>m\<close>, \<open>k\<close>, the counters, the cells of \<open>bitArray\<close>) is an
    \<open>int\<close>; the conversion to \<open>unsigned int\<close> that \<open>hash % m\<close> performs is
    \<open>word_of_int\<close>, and \<open>INT_MAX\<close> bounds the values a C \<open>int\<close> can hold.
  \<^item> a \<open>char *\<close> string is the list of its bytes; the terminating NUL is the end of
    the list, and a zero byte inside the list terminates the string as well.
  \<^item> \<open>char\<close> is signed (gcc on x86-64, the compiler of bloom.job), so a byte is
    sign-extended when it is promoted for \<open>^\<close>.
  \<^item> an \<open>int *\<close> array with its length is an \<open>int list\<close>; an access outside the
    list and a division by zero are undefined behaviour in C and are results of
    their own (\<open>Inl\<close>) in the model.
  \<^item> the array of words with its count \<open>numToInsert\<close> is the list of the words; the
    arrays \<open>words\<close> and \<open>bits\<close> of the queries with their common \<open>length\<close> are
    two lists, read in pairs.
  \<^item> the global \<open>int k\<close> is an explicit argument of the functions that read it.
\<close>

type_synonym uint = "32 word"
type_synonym cstring = "8 word list"

datatype error = DivisionByZero | OutOfBounds | IntOverflow

definition INT_MAX :: int where
  "INT_MAX = 2147483647"

definition char_to_uint :: "8 word \<Rightarrow> uint" where
  "char_to_uint c = scast c"

section \<open>APHashWithSalt\<close>

text \<open>The two branches of the loop body: \<open>i % 2 == 1\<close> and its \<open>else\<close>.\<close>

definition mix_odd :: "uint \<Rightarrow> 8 word \<Rightarrow> uint" where
  "mix_odd hash c = hash XOR ((push_bit 7 hash XOR char_to_uint c) XOR drop_bit 3 hash)"

definition mix_even :: "uint \<Rightarrow> 8 word \<Rightarrow> uint" where
  "mix_even hash c = hash XOR NOT ((push_bit 11 hash XOR char_to_uint c) XOR drop_bit 5 hash)"

definition mix :: "nat \<Rightarrow> uint \<Rightarrow> 8 word \<Rightarrow> uint" where
  "mix i hash c = (if i mod 2 = 1 then mix_odd hash c else mix_even hash c)"

text \<open>\<open>for (int i = 0; str[i]; i++)\<close>, entered with the index \<open>i\<close> and the accumulator.\<close>

function APHash_loop :: "cstring \<Rightarrow> nat \<Rightarrow> uint \<Rightarrow> uint" where
  "APHash_loop str i hash =
     (if i < length str \<and> str ! i \<noteq> 0
      then APHash_loop str (Suc i) (mix i hash (str ! i))
      else hash)"
  by pat_completeness auto
termination
  by (relation "measure (\<lambda>(str, i, hash). length str - i)") auto

declare APHash_loop.simps [simp del]

definition APHashWithSalt :: "cstring \<Rightarrow> uint \<Rightarrow> int \<Rightarrow> error + uint" where
  "APHashWithSalt str salt m =
     (let hash = APHash_loop str 0 salt; um = (word_of_int m :: uint)
      in if um = 0 then Inl DivisionByZero else Inr (hash mod um))"

text \<open>
  The hash as the specification words it: the accumulator starts at the salt, the
  characters of the string are visited by position (the first one has position 0),
  an odd position mixes with \<open>acc ^= (acc<<7) ^ char ^ (acc>>3)\<close>, an even one with
  \<open>acc ^= ~((acc<<11) ^ char ^ (acc>>5))\<close>, and the result is \<open>acc mod modulus\<close>.
\<close>

definition spec_step :: "uint \<Rightarrow> nat \<times> 8 word \<Rightarrow> uint" where
  "spec_step acc pc =
     (let ch = char_to_uint (snd pc)
      in if odd (fst pc)
         then acc XOR (push_bit 7 acc XOR ch XOR drop_bit 3 acc)
         else acc XOR NOT (push_bit 11 acc XOR ch XOR drop_bit 5 acc))"

definition characters :: "cstring \<Rightarrow> 8 word list" where
  "characters str = takeWhile (\<lambda>c. c \<noteq> 0) str"

definition spec_hash :: "cstring \<Rightarrow> uint \<Rightarrow> nat \<Rightarrow> nat" where
  "spec_hash element salt modulus =
     unat (foldl spec_step salt (enumerate 0 (characters element))) mod modulus"

section \<open>insertWords\<close>

text \<open>
  One iteration of the collapsed loop nest: the pair \<open>(word, h)\<close> computes
  \<open>APHashWithSalt(word, h, m)\<close> and stores 1 at that index.
\<close>

definition insert_iteration :: "int list \<Rightarrow> int \<Rightarrow> cstring \<times> nat \<Rightarrow> error + int list" where
  "insert_iteration bitArray m it =
     (case APHashWithSalt (fst it) (of_nat (snd it)) m of
        Inl e \<Rightarrow> Inl e
      | Inr hash \<Rightarrow>
          if unat hash < length bitArray
          then Inr (bitArray[unat hash := 1])
          else Inl OutOfBounds)"

fun run_iterations :: "(cstring \<times> nat) list \<Rightarrow> int list \<Rightarrow> int \<Rightarrow> error + int list" where
  "run_iterations [] bitArray m = Inr bitArray"
| "run_iterations (it # its) bitArray m =
     (case insert_iteration bitArray m it of
        Inl e \<Rightarrow> Inl e
      | Inr bitArray' \<Rightarrow> run_iterations its bitArray' m)"

text \<open>
  The values \<open>h = 0, ..., k - 1\<close> of \<open>for (int h = 0; h < k; h++)\<close>; there are none
  when \<open>k \<le> 0\<close>.
\<close>

definition salts :: "int \<Rightarrow> nat list" where
  "salts k = [0..<nat k]"

text \<open>
  The iteration space of \<open>collapse(2)\<close>: every word of the array paired with every
  salt, in the order of the sequential loop nest.
\<close>

definition iteration_space :: "cstring list \<Rightarrow> int \<Rightarrow> (cstring \<times> nat) list" where
  "iteration_space ppWordListArray k = List.product ppWordListArray (salts k)"

definition insertWords :: "cstring list \<Rightarrow> int list \<Rightarrow> int \<Rightarrow> int \<Rightarrow> error + int list" where
  "insertWords ppWordListArray bitArray m k =
     run_iterations (iteration_space ppWordListArray k) bitArray m"

section \<open>lookUp\<close>

text \<open>
  The loop of \<open>lookUp\<close> over the remaining salts, with the current value of
  \<open>isPossiblyInSet\<close>. \<open>int index = APHashWithSalt(...)\<close> converts the unsigned hash
  to \<open>int\<close> (\<open>sint\<close>); \<open>bitArray[index] && isPossiblyInSet\<close> is 1 when both are
  non-zero and 0 otherwise.
\<close>

fun lookUp_loop :: "cstring \<Rightarrow> int list \<Rightarrow> int \<Rightarrow> nat list \<Rightarrow> int \<Rightarrow> error + int" where
  "lookUp_loop word bitArray m [] isPossiblyInSet = Inr isPossiblyInSet"
| "lookUp_loop word bitArray m (h # hs) isPossiblyInSet =
     (case APHashWithSalt word (of_nat h) m of
        Inl e \<Rightarrow> Inl e
      | Inr hash \<Rightarrow>
          (let index = sint hash
           in if 0 \<le> index \<and> index < int (length bitArray)
              then lookUp_loop word bitArray m hs
                     (if bitArray ! nat index \<noteq> 0 \<and> isPossiblyInSet \<noteq> 0 then 1 else 0)
              else Inl OutOfBounds))"

definition lookUp :: "cstring \<Rightarrow> int list \<Rightarrow> int \<Rightarrow> int \<Rightarrow> error + int" where
  "lookUp word bitArray m k = lookUp_loop word bitArray m (salts k) 1"

section \<open>Parallel execution of the collapsed loop\<close>

text \<open>
  \<open>schedule(static, 1)\<close> with \<open>T\<close> threads gives iteration number \<open>p\<close> of the
  collapsed loop to thread \<open>p mod T\<close>; each thread runs its iterations in increasing
  order. An execution performs the iterations of all threads in some interleaving.
\<close>

definition worker_iterations :: "nat \<Rightarrow> nat \<Rightarrow> 'a list \<Rightarrow> 'a list" where
  "worker_iterations T t its = map (\<lambda>p. its ! p) (filter (\<lambda>p. p mod T = t) [0..<length its])"

definition static_schedule :: "nat \<Rightarrow> 'a list \<Rightarrow> 'a list list" where
  "static_schedule T its = map (\<lambda>t. worker_iterations T t its) [0..<T]"

fun interleaving :: "'a list list \<Rightarrow> 'a list \<Rightarrow> bool" where
  "interleaving xss [] = list_all (\<lambda>xs. xs = []) xss"
| "interleaving xss (y # ys) =
     list_ex (\<lambda>t. case xss ! t of
                    [] \<Rightarrow> False
                  | x # xs \<Rightarrow> x = y \<and> interleaving (xss[t := xs]) ys)
             [0..<length xss]"

section \<open>Double arithmetic\<close>

text \<open>
  A \<open>double\<close> is the real number it denotes. What the platform computes is a
  parameter of the model, since neither the floating-point unit nor \<open>math.h\<close> is
  part of the sources: \<open>rnd\<close> rounds an exact result to a \<open>double\<close> (a literal
  and the results of \<open>*\<close> and \<open>/\<close> are rounded exact values), \<open>c_log\<close> and
  \<open>c_pow\<close> are \<open>log\<close> and \<open>pow\<close>. \<open>ceil\<close> and the conversion of an \<open>int\<close> to
  \<open>double\<close> are exact; the conversion of a \<open>double\<close> to \<open>int\<close> truncates towards
  zero and is undefined outside the range of \<open>int\<close>.
\<close>

record fpu =
  rnd :: "real \<Rightarrow> real"
  c_log :: "real \<Rightarrow> real"
  c_pow :: "real \<Rightarrow> real \<Rightarrow> real"

text \<open>
  The platform is accurate when every rounding and every call of \<open>log\<close> and \<open>pow\<close>
  is within one part in ten thousand of the exact value, for magnitudes between
  \<open>1 / 10 ^ 10\<close> and \<open>10 ^ 12\<close>, and zero is rounded to zero; IEEE doubles with a
  correctly rounding unit and a usual \<open>math.h\<close> are within one part in \<open>10 ^ 15\<close>.
  \<open>exact\<close> is arithmetic without any rounding.
\<close>

definition accurate :: "fpu \<Rightarrow> bool" where
  "accurate fp \<longleftrightarrow>
     rnd fp 0 = 0 \<and>
     (\<forall>x. 1 / 10 ^ 10 \<le> \<bar>x\<bar> \<and> \<bar>x\<bar> \<le> 10 ^ 12 \<longrightarrow> \<bar>rnd fp x - x\<bar> \<le> \<bar>x\<bar> / 10000) \<and>
     (\<forall>x. 1 / 10 ^ 10 \<le> x \<and> x \<le> 10 ^ 12 \<longrightarrow> \<bar>c_log fp x - ln x\<bar> \<le> \<bar>ln x\<bar> / 10000) \<and>
     (\<forall>x y. 1 \<le> x \<and> x \<le> 2 \<and> 0 \<le> y \<and> y \<le> 1 \<longrightarrow>
        \<bar>c_pow fp x y - x powr y\<bar> \<le> (x powr y) / 10000)"

definition exact :: fpu where
  "exact = \<lparr>rnd = (\<lambda>x. x), c_log = ln, c_pow = (\<lambda>x y. x powr y)\<rparr>"

definition double_to_int :: "real \<Rightarrow> error + int" where
  "double_to_int x =
     (let t = (if 0 \<le> x then \<lfloor>x\<rfloor> else \<lceil>x\<rceil>)
      in if - INT_MAX - 1 \<le> t \<and> t \<le> INT_MAX then Inr t else Inl IntOverflow)"

section \<open>Sizing and construction in main\<close>

text \<open>\<open>#define MAX_FP 0.01\<close>: the \<open>double\<close> of the literal.\<close>

definition MAX_FP :: "fpu \<Rightarrow> real" where
  "MAX_FP fp = rnd fp (1 / 100)"

text \<open>\<open>int m = ceil((n * log(MAX_FP)) / log(1 / pow(2, log(2))));\<close>\<close>

definition calculateOptimalArraySize :: "fpu \<Rightarrow> int \<Rightarrow> error + int" where
  "calculateOptimalArraySize fp n =
     double_to_int
       (of_int \<lceil>rnd fp (rnd fp (of_int n * c_log fp (MAX_FP fp)) /
                         c_log fp (rnd fp (1 / c_pow fp 2 (c_log fp 2))))\<rceil>)"

text \<open>C's \<open>/\<close> on \<open>int\<close>: undefined for a zero divisor, truncating towards zero otherwise.\<close>

definition int_div :: "int \<Rightarrow> int \<Rightarrow> error + int" where
  "int_div a b =
     (if b = 0 then Inl DivisionByZero
      else if a = - INT_MAX - 1 \<and> b = - 1 then Inl IntOverflow
      else Inr (sgn a * sgn b * (\<bar>a\<bar> div \<bar>b\<bar>)))"

text \<open>
  \<open>k = (m/numToInsert) * log(2);\<close> the quotient of the two \<open>int\<close>s is converted
  to \<open>double\<close>, multiplied, and the product converted to \<open>int\<close>.
\<close>

definition hash_count :: "fpu \<Rightarrow> int \<Rightarrow> int \<Rightarrow> error + int" where
  "hash_count fp m numToInsert =
     (case int_div m numToInsert of
        Inl e \<Rightarrow> Inl e
      | Inr q \<Rightarrow> double_to_int (rnd fp (of_int q * c_log fp 2)))"

text \<open>
  \<open>malloc(m*sizeof(int))\<close> returns a block that nothing has written: its cells hold
  whatever the allocator's memory held, given here by \<open>heap\<close>. A negative \<open>m\<close> is a
  request of more than the address space, which fails with \<open>NULL\<close>.
\<close>

definition malloc_ints :: "(nat \<Rightarrow> int) \<Rightarrow> int \<Rightarrow> int list option" where
  "malloc_ints heap m = (if m < 0 then None else Some (map heap [0..<nat m]))"

record filter_store =
  size_m :: int
  hashCount_k :: int
  bits :: "int list"

text \<open>
  Lines 329 to 338 of \<open>main\<close>: the size, the hash count and the allocation of the bit
  array for \<open>numToInsert\<close> words. \<open>Inr None\<close> is the exit with status 1 after a
  failed allocation.
\<close>

definition main_construct ::
  "fpu \<Rightarrow> (nat \<Rightarrow> int) \<Rightarrow> int \<Rightarrow> error + filter_store option" where
  "main_construct fp heap numToInsert =
     (case calculateOptimalArraySize fp numToInsert of
        Inl e \<Rightarrow> Inl e
      | Inr m \<Rightarrow>
          (case hash_count fp m numToInsert of
             Inl e \<Rightarrow> Inl e
           | Inr k \<Rightarrow>
               (case malloc_ints heap m of
                  None \<Rightarrow> Inr None
                | Some bitArray \<Rightarrow>
                    Inr (Some \<lparr>size_m = m, hashCount_k = k, bits = bitArray\<rparr>))))"

section \<open>testBloomWithQueries\<close>

record evaluation =
  fPositive :: int
  fNegative :: int
  totalPositive :: int
  totalNegative :: int

text \<open>The body of the loop for one query, after \<open>lookUp\<close> has returned.\<close>

definition classify :: "int \<Rightarrow> int \<Rightarrow> evaluation \<Rightarrow> evaluation" where
  "classify expectedBit lookupResult ev =
     (if expectedBit = 1
      then (let ev1 = ev\<lparr>totalPositive := totalPositive ev + 1\<rparr>
            in if lookupResult = 0 then ev1\<lparr>fNegative := fNegative ev1 + 1\<rparr> else ev1)
      else if expectedBit = 0
      then (let ev1 = ev\<lparr>totalNegative := totalNegative ev + 1\<rparr>
            in if lookupResult = 1 then ev1\<lparr>fPositive := fPositive ev1 + 1\<rparr> else ev1)
      else ev)"

fun test_loop ::
  "int list \<Rightarrow> int \<Rightarrow> int \<Rightarrow> (cstring \<times> int) list \<Rightarrow> evaluation \<Rightarrow> error + evaluation" where
  "test_loop bitArray m k [] ev = Inr ev"
| "test_loop bitArray m k (q # qs) ev =
     (case lookUp (fst q) bitArray m k of
        Inl e \<Rightarrow> Inl e
      | Inr lookupResult \<Rightarrow> test_loop bitArray m k qs (classify (snd q) lookupResult ev))"

text \<open>
  A printed \<open>double\<close>: \<open>(double)cnt / tot * 100\<close> is not a number for \<open>0 / 0\<close>,
  infinite for a positive \<open>cnt\<close> over 0, and the rounded product of the rounded
  quotient otherwise.
\<close>

datatype percent = Finite real | NaN | Infinite

definition percentage :: "fpu \<Rightarrow> int \<Rightarrow> int \<Rightarrow> percent" where
  "percentage fp cnt tot =
     (if tot = 0 then (if cnt = 0 then NaN else Infinite)
      else Finite (rnd fp (rnd fp (of_int cnt / of_int tot) * 100)))"

record report =
  counts :: evaluation
  falseNegativePercentage :: percent
  falsePositivePercentage :: percent

definition testBloomWithQueries ::
  "fpu \<Rightarrow> int list \<Rightarrow> cstring list \<Rightarrow> int list \<Rightarrow> int \<Rightarrow> int \<Rightarrow> error + report" where
  "testBloomWithQueries fp bitArray words expected m k =
     (case test_loop bitArray m k (zip words expected)
             \<lparr>fPositive = 0, fNegative = 0, totalPositive = 0, totalNegative = 0\<rparr> of
        Inl e \<Rightarrow> Inl e
      | Inr ev \<Rightarrow>
          Inr \<lparr>counts = ev,
               falseNegativePercentage = percentage fp (fNegative ev) (totalPositive ev),
               falsePositivePercentage = percentage fp (fPositive ev) (totalNegative ev)\<rparr>)"

section \<open>The run of main\<close>

text \<open>
  \<open>main\<close> after the two files are read: construction for the number of words
  read, insertion of the words, evaluation of the queries.
\<close>

definition main ::
  "fpu \<Rightarrow> (nat \<Rightarrow> int) \<Rightarrow> cstring list \<Rightarrow> cstring list \<Rightarrow> int list \<Rightarrow>
   error + report option" where
  "main fp heap ppInsertWordListArray queries expected =
     (case main_construct fp heap (int (length ppInsertWordListArray)) of
        Inl e \<Rightarrow> Inl e
      | Inr None \<Rightarrow> Inr None
      | Inr (Some fs) \<Rightarrow>
          (case insertWords ppInsertWordListArray (bits fs) (size_m fs) (hashCount_k fs) of
             Inl e \<Rightarrow> Inl e
           | Inr bitArray \<Rightarrow>
               (case testBloomWithQueries fp bitArray queries expected (size_m fs) (hashCount_k fs) of
                  Inl e \<Rightarrow> Inl e
                | Inr r \<Rightarrow> Inr (Some r))))"

section \<open>Auxiliary notions of the statements\<close>

text \<open>
  The definitions of this section are not code of the program: they name what the
  statements below speak about.
\<close>

text \<open>
  The index that the pair \<open>(word, h)\<close> addresses when the divisor is not zero, and
  what it means that the bit at index \<open>hash(element, h, m)\<close> is set: the hash is
  computed, lies inside the array, and the cell there is non-zero (the truth value
  that \<open>&&\<close> reads).
\<close>

definition hash_index :: "cstring \<Rightarrow> nat \<Rightarrow> int \<Rightarrow> nat" where
  "hash_index word h m = unat (APHash_loop word 0 (of_nat h) mod (word_of_int m :: uint))"

definition bit_is_set :: "int list \<Rightarrow> cstring \<Rightarrow> nat \<Rightarrow> int \<Rightarrow> bool" where
  "bit_is_set bitArray word h m =
     (case APHashWithSalt word (of_nat h) m of
        Inl e \<Rightarrow> False
      | Inr hash \<Rightarrow> unat hash < length bitArray \<and> bitArray ! unat hash \<noteq> 0)"

text \<open>The array in which the cells of the index set \<open>S\<close> hold 1 and the others are kept.\<close>

definition set_cells :: "nat set \<Rightarrow> int list \<Rightarrow> int list" where
  "set_cells S bitArray = map (\<lambda>j. if j \<in> S then 1 else bitArray ! j) [0..<length bitArray]"

text \<open>The cell addressed by an iteration of the collapsed loop.\<close>

definition it_index :: "int \<Rightarrow> cstring \<times> nat \<Rightarrow> nat" where
  "it_index m it = hash_index (fst it) (snd it) m"

text \<open>
  A false negative is a query with ground truth 1 on which \<open>lookUp\<close> returns 0, a
  false positive one with ground truth 0 on which it returns 1; \<open>tally\<close> counts
  them, and the queries of either ground truth, in a list of queries.
\<close>

definition false_negative :: "int list \<Rightarrow> int \<Rightarrow> int \<Rightarrow> cstring \<times> int \<Rightarrow> bool" where
  "false_negative bitArray m k q \<longleftrightarrow> snd q = 1 \<and> lookUp (fst q) bitArray m k = Inr 0"

definition false_positive :: "int list \<Rightarrow> int \<Rightarrow> int \<Rightarrow> cstring \<times> int \<Rightarrow> bool" where
  "false_positive bitArray m k q \<longleftrightarrow> snd q = 0 \<and> lookUp (fst q) bitArray m k = Inr 1"

definition tally :: "int list \<Rightarrow> int \<Rightarrow> int \<Rightarrow> (cstring \<times> int) list \<Rightarrow> evaluation" where
  "tally bitArray m k qs =
     \<lparr>fPositive = int (length (filter (false_positive bitArray m k) qs)),
      fNegative = int (length (filter (false_negative bitArray m k) qs)),
      totalPositive = int (length (filter (\<lambda>q. snd q = 1) qs)),
      totalNegative = int (length (filter (\<lambda>q. snd q = 0) qs))\<rparr>"

definition add_evaluation :: "evaluation \<Rightarrow> evaluation \<Rightarrow> evaluation" where
  "add_evaluation a b =
     \<lparr>fPositive = fPositive a + fPositive b, fNegative = fNegative a + fNegative b,
      totalPositive = totalPositive a + totalPositive b,
      totalNegative = totalNegative a + totalNegative b\<rparr>"


text \<open>The \<open>double\<close> of which \<open>calculateOptimalArraySize\<close> takes the ceiling.\<close>

definition size_quotient :: "fpu \<Rightarrow> int \<Rightarrow> real" where
  "size_quotient fp n =
     rnd fp (rnd fp (of_int n * c_log fp (MAX_FP fp)) /
             c_log fp (rnd fp (1 / c_pow fp 2 (c_log fp 2))))"

section \<open>The hash: range and agreement with its description\<close>

lemma unat_word_of_m: "1 \<le> m \<Longrightarrow> m \<le> INT_MAX \<Longrightarrow> unat (word_of_int m :: uint) = nat m"
  by (simp add: INT_MAX_def unat_eq_nat_uint uint_word_of_int)

lemma word_of_m_nonzero: "1 \<le> m \<Longrightarrow> m \<le> INT_MAX \<Longrightarrow> (word_of_int m :: uint) \<noteq> 0"
  using unat_word_of_m [of m] by (auto simp del: of_nat_nat)

lemma APHashWithSalt_Inr:
  "(word_of_int m :: uint) \<noteq> 0 \<Longrightarrow>
   APHashWithSalt word salt m = Inr (APHash_loop word 0 salt mod word_of_int m)"
  by (simp add: APHashWithSalt_def Let_def)

lemma APHashWithSalt_Inl:
  "(word_of_int m :: uint) = 0 \<Longrightarrow> APHashWithSalt word salt m = Inl DivisionByZero"
  by (simp add: APHashWithSalt_def Let_def)

lemma unat_mod_less: "(um :: uint) \<noteq> 0 \<Longrightarrow> unat (x mod um) < unat um"
  by (simp add: unat_mod unat_gt_0)

lemma hash_index_less: "1 \<le> m \<Longrightarrow> m \<le> INT_MAX \<Longrightarrow> hash_index word h m < nat m"
  using unat_mod_less [OF word_of_m_nonzero, of m] unat_word_of_m [of m]
  by (simp add: hash_index_def)

lemma mix_spec_step: "mix i acc c = spec_step acc (i, c)"
  by (simp add: mix_def spec_step_def mix_odd_def mix_even_def Let_def odd_iff_mod_2_eq_one xor.assoc)

lemma APHash_loop_foldl:
  "APHash_loop str i acc =
   foldl spec_step acc (enumerate i (takeWhile (\<lambda>c. c \<noteq> 0) (drop i str)))"
proof (induction str i acc rule: APHash_loop.induct)
  case (1 str i hash)
  show ?case
  proof (cases "i < length str \<and> str ! i \<noteq> 0")
    case True
    then have d: "drop i str = str ! i # drop (Suc i) str"
      by (simp add: Cons_nth_drop_Suc)
    from True 1 show ?thesis
      by (subst APHash_loop.simps) (simp add: d mix_spec_step)
  next
    case False
    then have "takeWhile (\<lambda>c. c \<noteq> 0) (drop i str) = []"
      by (cases "i < length str") (simp_all add: takeWhile_eq_Nil_iff hd_drop_conv_nth)
    with False show ?thesis
      by (subst APHash_loop.simps) auto
  qed
qed

section \<open>What the insertion loop and the lookup loop compute\<close>

lemma insert_iteration_eq:
  "(word_of_int m :: uint) \<noteq> 0 \<Longrightarrow>
   insert_iteration b m it =
     (if hash_index (fst it) (snd it) m < length b
      then Inr (b[hash_index (fst it) (snd it) m := 1]) else Inl OutOfBounds)"
  by (simp add: insert_iteration_def APHashWithSalt_Inr hash_index_def)

lemma insert_iteration_zero:
  "(word_of_int m :: uint) = 0 \<Longrightarrow> insert_iteration b m it = Inl DivisionByZero"
  by (simp add: insert_iteration_def APHashWithSalt_Inl)

lemma length_set_cells [simp]: "length (set_cells S b) = length b"
  by (simp add: set_cells_def)

lemma nth_set_cells: "j < length b \<Longrightarrow> set_cells S b ! j = (if j \<in> S then 1 else b ! j)"
  by (simp add: set_cells_def)

lemma set_cells_empty: "set_cells {} b = b"
  by (rule nth_equalityI) (simp_all add: nth_set_cells)

lemma set_cells_update:
  "i < length b \<Longrightarrow> set_cells S (b[i := 1]) = set_cells (insert i S) b"
  by (rule nth_equalityI) (auto simp: nth_set_cells nth_list_update)

lemma run_iterations_eq:
  "run_iterations its b m =
     (if its = [] then Inr b
      else if (word_of_int m :: uint) = 0 then Inl DivisionByZero
      else if \<exists>it \<in> set its. \<not> it_index m it < length b then Inl OutOfBounds
      else Inr (set_cells (it_index m ` set its) b))"
proof (induction its arbitrary: b)
  case Nil
  show ?case by simp
next
  case (Cons it its)
  show ?case
  proof (cases "(word_of_int m :: uint) = 0")
    case True
    then show ?thesis by (simp add: insert_iteration_zero)
  next
    case nz: False
    show ?thesis
    proof (cases "it_index m it < length b")
      case False
      with nz show ?thesis by (simp add: insert_iteration_eq it_index_def)
    next
      case True
      with nz have step: "insert_iteration b m it = Inr (b[it_index m it := 1])"
        by (simp add: insert_iteration_eq it_index_def)
      show ?thesis
      proof (cases "its = []")
        case True
        with step \<open>it_index m it < length b\<close> nz show ?thesis
          using set_cells_update [of "it_index m it" b "{}"] by (simp add: set_cells_empty)
      next
        case False
        with step \<open>it_index m it < length b\<close> nz show ?thesis
          by (simp add: Cons.IH set_cells_update)
      qed
    qed
  qed
qed

lemma sint_hash_index:
  assumes "1 \<le> m" "m \<le> INT_MAX"
  shows "sint (APHash_loop word 0 salt mod (word_of_int m :: uint)) =
         int (unat (APHash_loop word 0 salt mod (word_of_int m :: uint)))"
proof -
  let ?x = "APHash_loop word 0 salt mod (word_of_int m :: uint)"
  have "unat ?x < unat (word_of_int m :: uint)"
    by (rule unat_mod_less) (rule word_of_m_nonzero [OF assms])
  moreover have "unat (word_of_int m :: uint) = nat m"
    by (rule unat_word_of_m [OF assms])
  moreover have "nat m < 2147483648"
    using assms by (simp add: INT_MAX_def)
  ultimately have "unat ?x < 2147483648"
    by linarith
  then have "int (unat ?x) < 2147483648"
    by linarith
  then have u: "uint ?x < 2147483648"
    by (simp only: uint_nat)
  have "sint ?x = signed_take_bit 31 (uint ?x)"
    by (simp add: sint_uint)
  also have "\<dots> = uint ?x"
  proof (rule signed_take_bit_int_eq_self)
    have "- (2 ^ 31) \<le> (0::int)" by simp
    also have "0 \<le> uint ?x" by (rule uint_ge_0)
    finally show "- (2 ^ 31) \<le> uint ?x" .
    show "uint ?x < 2 ^ 31" using u by simp
  qed
  finally show ?thesis by (simp only: uint_nat)
qed

lemma lookUp_loop_eq:
  assumes "1 \<le> m" "m \<le> INT_MAX" "length b = nat m"
  shows "lookUp_loop word b m hs acc =
         Inr (if hs = [] then acc
              else if (\<forall>h \<in> set hs. b ! hash_index word h m \<noteq> 0) \<and> acc \<noteq> 0 then 1 else 0)"
proof (induction hs arbitrary: acc)
  case Nil
  show ?case by simp
next
  case (Cons h hs)
  have nz: "(word_of_int m :: uint) \<noteq> 0"
    by (rule word_of_m_nonzero [OF assms(1,2)])
  have idx: "hash_index word h m < length b"
    using hash_index_less [OF assms(1,2)] assms(3) by simp
  have s: "sint (APHash_loop word 0 (of_nat h) mod (word_of_int m :: uint)) = int (hash_index word h m)"
    using sint_hash_index [OF assms(1,2)] by (simp add: hash_index_def)
  show ?case
    using idx by (simp add: APHashWithSalt_Inr [OF nz] s Let_def Cons.IH)
qed

lemma lookUp_eq:
  assumes "1 \<le> m" "m \<le> INT_MAX" "length b = nat m"
  shows "lookUp word b m k =
         Inr (if \<forall>h \<in> set (salts k). b ! hash_index word h m \<noteq> 0 then 1 else 0)"
  by (simp add: lookUp_def lookUp_loop_eq [OF assms])

lemma bit_is_set_eq:
  assumes "1 \<le> m" "m \<le> INT_MAX" "length b = nat m"
  shows "bit_is_set b word h m \<longleftrightarrow> b ! hash_index word h m \<noteq> 0"
  using hash_index_less [OF assms(1,2), of word h] assms(3)
  by (simp add: bit_is_set_def APHashWithSalt_Inr [OF word_of_m_nonzero [OF assms(1,2)]] hash_index_def)

lemma insertWords_eq:
  assumes "1 \<le> m" "m \<le> INT_MAX" "length b = nat m"
  shows "insertWords ws b m k = Inr (set_cells (it_index m ` set (iteration_space ws k)) b)"
proof -
  have "\<forall>it \<in> set (iteration_space ws k). it_index m it < length b"
    using hash_index_less [OF assms(1,2)] assms(3) by (simp add: it_index_def)
  then show ?thesis
    using word_of_m_nonzero [OF assms(1,2)]
    by (simp add: insertWords_def run_iterations_eq set_cells_empty)
qed

section \<open>Interleavings of the static schedule\<close>

lemma sum_list_mset_update:
  "t < length xss \<Longrightarrow> xss ! t = y # xs \<Longrightarrow>
   sum_list (map mset xss) = add_mset y (sum_list (map mset (xss[t := xs])))"
proof (induction xss arbitrary: t)
  case Nil
  then show ?case by simp
next
  case (Cons a xss)
  then show ?case by (cases t) simp_all
qed

lemma interleaving_mset:
  "interleaving xss ys \<Longrightarrow> mset ys = sum_list (map mset xss)"
proof (induction ys arbitrary: xss)
  case Nil
  then have "\<forall>xs \<in> set xss. xs = []"
    by (simp add: list_all_iff)
  then show ?case
    by (induction xss) simp_all
next
  case (Cons y ys)
  from Cons.prems obtain t where t: "t < length xss"
    and c: "case xss ! t of [] \<Rightarrow> False | x # xs \<Rightarrow> x = y \<and> interleaving (xss[t := xs]) ys"
    by (auto simp: list_ex_iff)
  from c obtain xs where x: "xss ! t = y # xs" and rest: "interleaving (xss[t := xs]) ys"
    by (cases "xss ! t") auto
  from Cons.IH [OF rest] sum_list_mset_update [OF t x]
  show ?case by simp
qed

lemma worker_iterations_snoc:
  "worker_iterations T t (its @ [x]) =
   worker_iterations T t its @ (if length its mod T = t then [x] else [])"
  by (simp add: worker_iterations_def nth_append cong: map_cong)

lemma mset_worker_iterations_snoc:
  "mset (worker_iterations T t (its @ [x])) =
   mset (worker_iterations T t its) + (if length its mod T = t then {#x#} else {#})"
  by (simp add: worker_iterations_snoc)

lemma sum_list_single:
  "c < T \<Longrightarrow> sum_list (map (\<lambda>t. if c = t then a else ({#} :: 'a multiset)) [0..<T]) = a"
proof (induction T)
  case 0
  then show ?case by simp
next
  case (Suc T)
  show ?case
  proof (cases "c = T")
    case True
    have "map (\<lambda>t. if c = t then a else ({#} :: 'a multiset)) [0..<T] = map (\<lambda>t. {#}) [0..<T]"
      using True by simp
    then have "sum_list (map (\<lambda>t. if c = t then a else ({#} :: 'a multiset)) [0..<T]) = {#}"
      by (simp only: sum_list_0)
    with True show ?thesis by simp
  next
    case False
    with Suc show ?thesis by simp
  qed
qed

lemma static_schedule_mset:
  "0 < T \<Longrightarrow> sum_list (map mset (static_schedule T its)) = mset its"
proof (induction its rule: rev_induct)
  case Nil
  then show ?case
    by (simp add: static_schedule_def worker_iterations_def comp_def)
next
  case (snoc x its)
  have c: "length its mod T < T" using snoc.prems by simp
  have "sum_list (map mset (static_schedule T (its @ [x]))) =
        sum_list (map (\<lambda>t. mset (worker_iterations T t its) +
                            (if length its mod T = t then {#x#} else {#})) [0..<T])"
    by (simp add: static_schedule_def mset_worker_iterations_snoc comp_def)
  also have "\<dots> = sum_list (map mset (static_schedule T its)) +
        sum_list (map (\<lambda>t. if length its mod T = t then {#x#} else {#}) [0..<T])"
    by (simp add: sum_list_addf static_schedule_def comp_def)
  also have "\<dots> = mset its + {#x#}"
    using snoc.IH [OF snoc.prems] sum_list_single [OF c] by simp
  finally show ?case by simp
qed

lemma run_iterations_set:
  assumes "set its = set its'" "its = [] \<longleftrightarrow> its' = []"
  shows "run_iterations its b m = run_iterations its' b m"
  using assms by (simp add: run_iterations_eq [of its] run_iterations_eq [of its'])

section \<open>The evaluation loop\<close>

lemma test_loop_eq:
  assumes "1 \<le> m" "m \<le> INT_MAX" "length b = nat m"
  shows "test_loop b m k qs ev = Inr (add_evaluation ev (tally b m k qs))"
proof (induction qs arbitrary: ev)
  case Nil
  show ?case by (simp add: add_evaluation_def tally_def)
next
  case (Cons q qs)
  obtain r where r: "lookUp (fst q) b m k = Inr r" "r = 0 \<or> r = 1"
    by (simp add: lookUp_eq [OF assms])
  have "add_evaluation (classify (snd q) r ev) (tally b m k qs) =
        add_evaluation ev (tally b m k (q # qs))"
    using r by (auto simp: add_evaluation_def tally_def classify_def Let_def
        false_negative_def false_positive_def)
  then show ?case
    using r(1) by (simp add: Cons.IH)
qed

lemma tally_mset:
  "mset qs = mset qs' \<Longrightarrow> tally b m k qs = tally b m k qs'"
proof -
  assume e: "mset qs = mset qs'"
  have "length (filter P qs) = length (filter P qs')" for P :: "cstring \<times> int \<Rightarrow> bool"
  proof -
    have "mset (filter P qs) = mset (filter P qs')"
      by (simp add: e)
    then show ?thesis by (rule mset_eq_length)
  qed
  then show ?thesis by (simp add: tally_def)
qed

lemma testBloomWithQueries_eq:
  assumes "1 \<le> m" "m \<le> INT_MAX" "length b = nat m"
  shows "testBloomWithQueries fp b words expected m k =
         Inr \<lparr>counts = tally b m k (zip words expected),
              falseNegativePercentage =
                percentage fp (fNegative (tally b m k (zip words expected)))
                  (totalPositive (tally b m k (zip words expected))),
              falsePositivePercentage =
                percentage fp (fPositive (tally b m k (zip words expected)))
                  (totalNegative (tally b m k (zip words expected)))\<rparr>"
  by (simp add: testBloomWithQueries_def test_loop_eq [OF assms] add_evaluation_def)

section \<open>Bounds on the logarithms\<close>

lemma exp_double_le:
  fixes a b t :: real
  assumes "exp t \<le> a" "a * a \<le> b"
  shows "exp (2 * t) \<le> b"
proof -
  have "exp (2 * t) = exp t * exp t"
    by (simp add: exp_add [symmetric])
  also have "\<dots> \<le> a * a"
    using assms(1) by (intro mult_mono) (auto intro: order_trans [OF exp_ge_zero])
  finally show ?thesis using assms(2) by simp
qed

lemma exp_double_ge:
  fixes a b t :: real
  assumes "a \<le> exp t" "0 \<le> a" "b \<le> a * a"
  shows "b \<le> exp (2 * t)"
proof -
  have "a * a \<le> exp t * exp t"
    using assms(1,2) by (intro mult_mono) auto
  also have "\<dots> = exp (2 * t)"
    by (simp add: exp_add [symmetric])
  finally show ?thesis using assms(3) by simp
qed

lemma ln2_lower: "69 / 100 \<le> ln (2::real)"
proof -
  have e0: "exp (69 / 12800 :: real) \<le> 10054196839 / 10000000000"
    using exp_bound [of "69 / 12800 :: real"] by (simp add: power2_eq_square)
  have e1: "exp (69 / 6400 :: real) \<le> 631792963 / 625000000"
    using exp_double_le [OF e0, of "631792963 / 625000000"] by simp
  have e2: "exp (69 / 3200 :: real) \<le> 638659757 / 625000000"
    using exp_double_le [OF e1, of "638659757 / 625000000"] by simp
  have e3: "exp (69 / 1600 :: real) \<le> 5220944451 / 5000000000"
    using exp_double_le [OF e2, of "5220944451 / 5000000000"] by simp
  have e4: "exp (69 / 800 :: real) \<le> 2180660877 / 2000000000"
    using exp_double_le [OF e3, of "2180660877 / 2000000000"] by simp
  have e5: "exp (69 / 400 :: real) \<le> 2972051163 / 2500000000"
    using exp_double_le [OF e4, of "2972051163 / 2500000000"] by simp
  have e6: "exp (69 / 200 :: real) \<le> 2826588197 / 2000000000"
    using exp_double_le [OF e5, of "2826588197 / 2000000000"] by simp
  have e7: "exp (69 / 100 :: real) \<le> 19974002089 / 10000000000"
    using exp_double_le [OF e6, of "19974002089 / 10000000000"] by simp
  then have "exp (69 / 100 :: real) \<le> 2" by simp
  then show ?thesis
    by (rule iffD2 [OF ln_ge_iff [of 2 "69 / 100", OF zero_less_numeral]])
qed

lemma ln2_upper: "ln (2::real) < 279 / 400"
proof -
  have e0: "11895783203 / 10000000000 \<le> exp (279 / 1600 :: real)"
    using exp_lower_Taylor_quadratic [of "279 / 1600 :: real"] by (simp add: power2_eq_square)
  have e1: "14150965801 / 10000000000 \<le> exp (279 / 800 :: real)"
    using exp_double_ge [OF e0, of "14150965801 / 10000000000"] by simp
  have e2: "2002498331 / 1000000000 \<le> exp (279 / 400 :: real)"
    using exp_double_ge [OF e1, of "2002498331 / 1000000000"] by simp
  then have "2 < exp (279 / 400 :: real)" by simp
  then have "ln 2 < ln (exp (279 / 400 :: real))"
    by (subst ln_less_cancel_iff) simp_all
  then show ?thesis by (simp only: ln_exp)
qed

lemma ln_100_eq: "ln (100::real) = 6 * ln 2 + 2 * ln (1 + 1 / 4)"
proof -
  have "(100::real) = 2 ^ 6 * (1 + 1 / 4) ^ 2" by (simp add: power2_eq_square)
  then have "ln (100::real) = ln (2 ^ 6 * (1 + 1 / 4) ^ 2)" by simp
  also have "\<dots> = ln ((2::real) ^ 6) + ln ((1 + 1 / 4 :: real) ^ 2)"
    by (rule ln_mult_pos) simp_all
  also have "\<dots> = 6 * ln 2 + 2 * ln (1 + 1 / 4)"
    by (simp only: ln_realpow of_nat_numeral)
  finally show ?thesis .
qed

lemma ln_100_bounds: "4515 / 1000 \<le> ln (100::real)" "ln (100::real) \<le> 4685 / 1000"
proof -
  have lo: "3 / 16 \<le> ln (1 + 1 / 4 :: real)"
    using ln_one_plus_pos_lower_bound [of "1 / 4 :: real"] by (simp add: power2_eq_square)
  have hi: "ln (1 + 1 / 4 :: real) \<le> 1 / 4"
    using ln_add_one_self_le_self [of "1 / 4 :: real"] by simp
  show "4515 / 1000 \<le> ln (100::real)"
    unfolding ln_100_eq using lo ln2_lower by linarith
  show "ln (100::real) \<le> 4685 / 1000"
    unfolding ln_100_eq using hi ln2_upper by linarith
qed

text \<open>A relative error of one part in ten thousand moves the logarithm by little.\<close>

lemma ln_perturbed:
  fixes x y :: real
  assumes "0 < x" "\<bar>y - x\<bar> \<le> x / 10000"
  shows "0 < y" "ln x - 2 / 10000 \<le> ln y" "ln y \<le> ln x + 1 / 10000"
proof -
  have "y - x \<le> x / 10000" using assms(2) by (rule abs_le_D1)
  then have hi: "y \<le> x * (1 + 1 / 10000)" by (simp add: field_simps)
  have "- (y - x) \<le> x / 10000" using assms(2) by (rule abs_le_D2)
  then have lo: "x * (1 - 1 / 10000) \<le> y" by (simp add: field_simps)
  have "0 < x * (1 - 1 / 10000)" using assms(1) by simp
  with lo show y: "0 < y" by linarith
  have "ln (x * (1 - 1 / 10000)) \<le> ln y"
    using lo assms(1) by (intro ln_mono) simp_all
  moreover have "ln (x * (1 - 1 / 10000)) = ln x + ln (1 - 1 / 10000 :: real)"
    using assms(1) by (intro ln_mult_pos) simp_all
  moreover have "- (1 / 10000) - 2 * (1 / 10000)\<^sup>2 \<le> ln (1 - 1 / 10000 :: real)"
    by (rule ln_one_minus_pos_lower_bound) simp_all
  ultimately show "ln x - 2 / 10000 \<le> ln y"
    by (simp add: power2_eq_square)
  have "ln y \<le> ln (x * (1 + 1 / 10000))"
    using hi y by (intro ln_mono) simp_all
  moreover have "ln (x * (1 + 1 / 10000)) = ln x + ln (1 + 1 / 10000 :: real)"
    using assms(1) by (intro ln_mult_pos) simp_all
  moreover have "ln (1 + 1 / 10000 :: real) \<le> 1 / 10000"
    by (rule ln_add_one_self_le_self) simp
  ultimately show "ln y \<le> ln x + 1 / 10000"
    by simp
qed

lemma accurate_rnd:
  "accurate fp \<Longrightarrow> 1 / 10 ^ 10 \<le> \<bar>x\<bar> \<Longrightarrow> \<bar>x\<bar> \<le> 10 ^ 12 \<Longrightarrow> \<bar>rnd fp x - x\<bar> \<le> \<bar>x\<bar> / 10000"
  by (simp add: accurate_def)

lemma accurate_log:
  "accurate fp \<Longrightarrow> 1 / 10 ^ 10 \<le> x \<Longrightarrow> x \<le> 10 ^ 12 \<Longrightarrow> \<bar>c_log fp x - ln x\<bar> \<le> \<bar>ln x\<bar> / 10000"
  by (simp add: accurate_def)

lemma accurate_pow:
  "accurate fp \<Longrightarrow> 0 \<le> y \<Longrightarrow> y \<le> 1 \<Longrightarrow> \<bar>c_pow fp 2 y - 2 powr y\<bar> \<le> (2 powr y) / 10000"
  by (simp add: accurate_def)

lemma accurate_exact: "accurate exact"
  by (simp add: accurate_def exact_def)

section \<open>The sizing formulas in accurate double arithmetic\<close>

lemma approx_within:
  fixes x y a b M :: real
  assumes "\<bar>y - x\<bar> \<le> \<bar>x\<bar> / 10000" "a \<le> x" "x \<le> b" "\<bar>x\<bar> \<le> M"
  shows "a - M / 10000 \<le> y" "y \<le> b + M / 10000"
proof -
  have e: "\<bar>y - x\<bar> \<le> M / 10000"
    using assms(1,4) by linarith
  have "y - x \<le> M / 10000" using e by (rule abs_le_D1)
  with assms(3) show "y \<le> b + M / 10000" by linarith
  have "- (y - x) \<le> M / 10000" using e by (rule abs_le_D2)
  with assms(2) show "a - M / 10000 \<le> y" by linarith
qed

lemma log_2_bounds:
  assumes "accurate fp"
  shows "68993 / 100000 \<le> c_log fp 2" "c_log fp 2 \<le> 69757 / 100000"
proof -
  have e: "\<bar>c_log fp 2 - ln 2\<bar> \<le> \<bar>ln 2\<bar> / 10000"
    by (rule accurate_log [OF assms]) simp_all
  have m: "\<bar>ln (2::real)\<bar> \<le> 279 / 400"
    using ln2_lower ln2_upper by linarith
  show "68993 / 100000 \<le> c_log fp 2"
    using approx_within(1) [OF e ln2_lower less_imp_le [OF ln2_upper] m] by linarith
  show "c_log fp 2 \<le> 69757 / 100000"
    using approx_within(2) [OF e ln2_lower less_imp_le [OF ln2_upper] m] by linarith
qed

lemma log_MAX_FP_bounds:
  assumes "accurate fp"
  shows "- (46857 / 10000) \<le> c_log fp (MAX_FP fp)" "c_log fp (MAX_FP fp) \<le> - (45144 / 10000)"
proof -
  let ?F = "rnd fp (1 / 100)"
  have r: "\<bar>?F - 1 / 100\<bar> \<le> \<bar>1 / 100 :: real\<bar> / 10000"
    by (rule accurate_rnd [OF assms]) simp_all
  then have r': "\<bar>?F - 1 / 100\<bar> \<le> (1 / 100) / 10000" by simp
  have F: "0 < ?F" and lo: "ln (1 / 100) - 2 / 10000 \<le> ln ?F" and hi: "ln ?F \<le> ln (1 / 100) + 1 / 10000"
    using ln_perturbed [OF _ r'] by simp_all
  have l: "ln (1 / 100 :: real) = - ln 100"
    by (simp add: ln_div)
  have a: "- (46852 / 10000) \<le> ln ?F" and b: "ln ?F \<le> - (45149 / 10000)"
    using lo hi ln_100_bounds unfolding l by linarith+
  have rng: "1 / 10 ^ 10 \<le> ?F" "?F \<le> 10 ^ 12"
    using approx_within [OF r, of "1 / 100" "1 / 100" "1 / 100"] by simp_all
  have e: "\<bar>c_log fp ?F - ln ?F\<bar> \<le> \<bar>ln ?F\<bar> / 10000"
    by (rule accurate_log [OF assms rng])
  have m: "\<bar>ln ?F\<bar> \<le> 46852 / 10000"
    using a b by linarith
  show "- (46857 / 10000) \<le> c_log fp (MAX_FP fp)"
    unfolding MAX_FP_def using approx_within(1) [OF e a b m] by linarith
  show "c_log fp (MAX_FP fp) \<le> - (45144 / 10000)"
    unfolding MAX_FP_def using approx_within(2) [OF e a b m] by linarith
qed

lemma log_denominator_bounds:
  assumes "accurate fp"
  shows "- (48695 / 100000) \<le> c_log fp (rnd fp (1 / c_pow fp 2 (c_log fp 2)))"
    "c_log fp (rnd fp (1 / c_pow fp 2 (c_log fp 2))) \<le> - (47565 / 100000)"
proof -
  let ?L = "c_log fp 2"
  let ?P = "c_pow fp 2 ?L"
  let ?R = "rnd fp (1 / ?P)"
  note L = log_2_bounds [OF assms]
  have L01: "0 \<le> ?L" "?L \<le> 1" using L by linarith+
  have p: "\<bar>?P - 2 powr ?L\<bar> \<le> (2 powr ?L) / 10000"
    by (rule accurate_pow [OF assms L01])
  have P: "0 < ?P" and plo: "ln (2 powr ?L) - 2 / 10000 \<le> ln ?P"
    and phi: "ln ?P \<le> ln (2 powr ?L) + 1 / 10000"
    using ln_perturbed [OF _ p] by simp_all
  have lp: "ln (2 powr ?L) = ?L * ln 2"
    by simp
  have "(68993 / 100000) * (69 / 100) \<le> ?L * ln 2"
    using L(1) ln2_lower by (intro mult_mono) simp_all
  moreover have "?L * ln 2 \<le> (69757 / 100000) * (279 / 400)"
    using L(2) L01(1) ln2_upper by (intro mult_mono) simp_all
  ultimately have a: "4758 / 10000 \<le> ln ?P" and b: "ln ?P \<le> 4867 / 10000"
    using plo phi unfolding lp by simp_all
  have "0 \<le> ln ?P" using a by linarith
  then have "1 \<le> ?P"
    using P by (rule ln_ge_zero_imp_ge_one)
  moreover have "?P \<le> 3"
  proof -
    have "ln ?P \<le> 1" using b by simp
    then have "exp (ln ?P) \<le> exp 1" by (simp only: exp_le_cancel_iff)
    with P exp_le show ?thesis by simp
  qed
  ultimately have i: "1 / 3 \<le> 1 / ?P" "1 / ?P \<le> 1"
    by (simp_all add: field_simps)
  have iP: "0 < 1 / ?P" using P by simp
  then have ab: "\<bar>1 / ?P\<bar> = 1 / ?P" by simp
  have small: "(1 / 10 ^ 10 :: real) \<le> 1 / 3" and big: "(1::real) \<le> 10 ^ 12" by simp_all
  have g1: "1 / 10 ^ 10 \<le> \<bar>1 / ?P\<bar>"
    unfolding ab using small i(1) by (rule order_trans)
  have g2: "\<bar>1 / ?P\<bar> \<le> 10 ^ 12"
    unfolding ab using i(2) big by (rule order_trans)
  have r: "\<bar>?R - 1 / ?P\<bar> \<le> \<bar>1 / ?P\<bar> / 10000"
    by (rule accurate_rnd [OF assms g1 g2])
  then have r': "\<bar>?R - 1 / ?P\<bar> \<le> (1 / ?P) / 10000"
    unfolding ab .
  have R: "0 < ?R" and rlo: "ln (1 / ?P) - 2 / 10000 \<le> ln ?R" and rhi: "ln ?R \<le> ln (1 / ?P) + 1 / 10000"
    using ln_perturbed [OF iP r'] by simp_all
  have li: "ln (1 / ?P) = - ln ?P"
    using P by (simp add: ln_div)
  have c: "- (4869 / 10000) \<le> ln ?R" and d: "ln ?R \<le> - (4757 / 10000)"
    using rlo rhi a b unfolding li by linarith+
  have m1: "\<bar>1 / ?P\<bar> \<le> 1" unfolding ab by (rule i(2))
  have "1 / 3 - 1 / 10000 \<le> ?R" "?R \<le> 1 + 1 / 10000"
    using approx_within [OF r i m1] by simp_all
  then have rng: "1 / 10 ^ 10 \<le> ?R" "?R \<le> 10 ^ 12"
    by simp_all
  have e: "\<bar>c_log fp ?R - ln ?R\<bar> \<le> \<bar>ln ?R\<bar> / 10000"
    by (rule accurate_log [OF assms rng])
  have m: "\<bar>ln ?R\<bar> \<le> 4869 / 10000"
    using c d by linarith
  show "- (48695 / 100000) \<le> c_log fp ?R"
    using approx_within(1) [OF e c d m] by linarith
  show "c_log fp ?R \<le> - (47565 / 100000)"
    using approx_within(2) [OF e c d m] by linarith
qed

lemma size_quotient_zero: "accurate fp \<Longrightarrow> size_quotient fp 0 = 0"
  by (simp add: size_quotient_def accurate_def)

lemma size_quotient_bounds:
  assumes "accurate fp" "1 \<le> n" "n \<le> INT_MAX"
  shows "9268 / 1000 * of_int n \<le> size_quotient fp n" "size_quotient fp n \<le> 9854 / 1000 * of_int n"
proof -
  let ?n = "of_int n :: real"
  let ?A = "c_log fp (MAX_FP fp)"
  let ?B = "c_log fp (rnd fp (1 / c_pow fp 2 (c_log fp 2)))"
  let ?X1 = "rnd fp (?n * ?A)"
  let ?Q = "?X1 / ?B"
  note A = log_MAX_FP_bounds [OF assms(1)]
  note B = log_denominator_bounds [OF assms(1)]
  have n1: "1 \<le> ?n" using assms(2) by simp
  have "?n \<le> of_int 2147483647"
    using assms(3) unfolding INT_MAX_def by (simp only: of_int_le_iff)
  then have n2: "?n \<le> 2147483647" by simp
  have t1: "- (46857 / 10000) * ?n \<le> ?n * ?A"
    using mult_left_mono [OF A(1), of ?n] n1 by (simp add: mult.commute)
  have t2: "?n * ?A \<le> - (45144 / 10000) * ?n"
    using mult_left_mono [OF A(2), of ?n] n1 by (simp add: mult.commute)
  have tm: "\<bar>?n * ?A\<bar> \<le> 46857 / 10000 * ?n"
    using t1 t2 n1 by linarith
  have g1: "1 / 10 ^ 10 \<le> \<bar>?n * ?A\<bar>"
  proof -
    have "(1 / 10 ^ 10 :: real) \<le> 45144 / 10000" by simp
    also have "\<dots> \<le> \<bar>?n * ?A\<bar>" using t2 n1 by linarith
    finally show ?thesis .
  qed
  have g2: "\<bar>?n * ?A\<bar> \<le> 10 ^ 12"
  proof -
    have "\<bar>?n * ?A\<bar> \<le> 46857 / 10000 * 2147483647" using tm n2 by linarith
    also have "\<dots> \<le> (10 ^ 12 :: real)" by simp
    finally show ?thesis .
  qed
  have e1: "\<bar>?X1 - ?n * ?A\<bar> \<le> \<bar>?n * ?A\<bar> / 10000"
    by (rule accurate_rnd [OF assms(1) g1 g2])
  have x1: "- (468617 / 100000) * ?n \<le> ?X1"
    using approx_within(1) [OF e1 t1 t2 tm] n1 by linarith
  have x2: "?X1 \<le> - (451393 / 100000) * ?n"
    using approx_within(2) [OF e1 t1 t2 tm] n1 by linarith
  have Bpos: "0 < - ?B" using B(2) by linarith
  have q1: "9269 / 1000 * ?n \<le> ?Q"
  proof -
    have "9269 / 1000 * ?n * (- ?B) \<le> 9269 / 1000 * ?n * (48695 / 100000)"
      using B(1) n1 by (intro mult_left_mono) simp_all
    also have "\<dots> \<le> - ?X1" using x2 n1 by linarith
    finally have "9269 / 1000 * ?n \<le> (- ?X1) / (- ?B)"
      by (rule iffD2 [OF pos_le_divide_eq [OF Bpos]])
    then show ?thesis by (simp only: minus_divide_divide)
  qed
  have q2: "?Q \<le> 9853 / 1000 * ?n"
  proof -
    have "- ?X1 \<le> 9853 / 1000 * ?n * (47565 / 100000)" using x1 n1 by linarith
    also have "\<dots> \<le> 9853 / 1000 * ?n * (- ?B)"
      using B(2) n1 by (intro mult_left_mono) simp_all
    finally have "(- ?X1) / (- ?B) \<le> 9853 / 1000 * ?n"
      by (rule iffD2 [OF pos_divide_le_eq [OF Bpos]])
    then show ?thesis by (simp only: minus_divide_divide)
  qed
  have qm: "\<bar>?Q\<bar> \<le> 9853 / 1000 * ?n"
    using q1 q2 n1 by linarith
  have h1: "1 / 10 ^ 10 \<le> \<bar>?Q\<bar>"
  proof -
    have "(1 / 10 ^ 10 :: real) \<le> 9269 / 1000" by simp
    also have "\<dots> \<le> \<bar>?Q\<bar>" using q1 n1 by linarith
    finally show ?thesis .
  qed
  have h2: "\<bar>?Q\<bar> \<le> 10 ^ 12"
  proof -
    have "\<bar>?Q\<bar> \<le> 9853 / 1000 * 2147483647" using qm n2 by linarith
    also have "\<dots> \<le> (10 ^ 12 :: real)" by simp
    finally show ?thesis .
  qed
  have e2: "\<bar>rnd fp ?Q - ?Q\<bar> \<le> \<bar>?Q\<bar> / 10000"
    by (rule accurate_rnd [OF assms(1) h1 h2])
  show "9268 / 1000 * of_int n \<le> size_quotient fp n"
    unfolding size_quotient_def using approx_within(1) [OF e2 q1 q2 qm] n1 by linarith
  show "size_quotient fp n \<le> 9854 / 1000 * of_int n"
    unfolding size_quotient_def using approx_within(2) [OF e2 q1 q2 qm] n1 by linarith
qed

lemma size_bounds:
  assumes "accurate fp" "0 \<le> n" "n \<le> INT_MAX"
  shows "9 * n \<le> \<lceil>size_quotient fp n\<rceil>" "\<lceil>size_quotient fp n\<rceil> \<le> 10 * n"
proof -
  have "9 * n \<le> \<lceil>size_quotient fp n\<rceil> \<and> \<lceil>size_quotient fp n\<rceil> \<le> 10 * n"
  proof (cases "n = 0")
    case True
    then show ?thesis by (simp add: size_quotient_zero [OF assms(1)])
  next
    case False
    then have n: "1 \<le> n" using assms(2) by simp
    then have n1: "1 \<le> (of_int n :: real)" by simp
    note b = size_quotient_bounds [OF assms(1) n assms(3)]
    have "of_int (9 * n) \<le> size_quotient fp n"
      using b(1) n1 by simp
    also have "\<dots> \<le> of_int \<lceil>size_quotient fp n\<rceil>"
      by (rule le_of_int_ceiling)
    finally have lo: "9 * n \<le> \<lceil>size_quotient fp n\<rceil>"
      by (simp only: of_int_le_iff)
    have "size_quotient fp n \<le> of_int (10 * n)"
      using b(2) n1 by simp
    then have "\<lceil>size_quotient fp n\<rceil> \<le> 10 * n"
      by (simp only: ceiling_le_iff)
    with lo show ?thesis ..
  qed
  then show "9 * n \<le> \<lceil>size_quotient fp n\<rceil>" "\<lceil>size_quotient fp n\<rceil> \<le> 10 * n"
    by simp_all
qed

lemma double_to_int_of_int:
  "- INT_MAX - 1 \<le> z \<Longrightarrow> z \<le> INT_MAX \<Longrightarrow> double_to_int (of_int z) = Inr z"
  by (simp add: double_to_int_def)

lemma calculateOptimalArraySize_eq:
  assumes "accurate fp" "0 \<le> n" "10 * n \<le> INT_MAX"
  shows "calculateOptimalArraySize fp n = Inr \<lceil>size_quotient fp n\<rceil>"
proof -
  have n: "n \<le> INT_MAX" using assms(2,3) by linarith
  have "- INT_MAX - 1 \<le> \<lceil>size_quotient fp n\<rceil>"
    unfolding INT_MAX_def using size_bounds(1) [OF assms(1,2) n] assms(2) by linarith
  moreover have "\<lceil>size_quotient fp n\<rceil> \<le> INT_MAX"
    using size_bounds(2) [OF assms(1,2) n] assms(3) by linarith
  ultimately show ?thesis
    unfolding calculateOptimalArraySize_def size_quotient_def [symmetric]
    by (rule double_to_int_of_int)
qed

lemma calculateOptimalArraySize_Inr:
  assumes "calculateOptimalArraySize fp n = Inr m"
  shows "m = \<lceil>size_quotient fp n\<rceil>" "m \<le> INT_MAX"
  using assms
  unfolding calculateOptimalArraySize_def size_quotient_def [symmetric]
  by (auto simp: double_to_int_def Let_def split: if_splits)

lemma floor_ln2_six:
  fixes x :: real
  assumes "9 \<le> x" "x \<le> 10"
  shows "\<lfloor>x * ln 2\<rfloor> = 6"
proof -
  have l: "0 \<le> ln (2::real)" by simp
  have "6 \<le> 9 * ln (2::real)" using ln2_lower by linarith
  also have "\<dots> \<le> x * ln 2" using assms(1) l by (intro mult_right_mono)
  finally have lo: "6 \<le> x * ln 2" .
  have "x * ln 2 \<le> 10 * ln (2::real)" using assms(2) l by (intro mult_right_mono)
  also have "\<dots> < 7" using ln2_upper by linarith
  finally have hi: "x * ln 2 < 7" .
  show ?thesis using lo hi by (simp add: floor_eq_iff)
qed

lemma rounded_product_six:
  fixes x :: real
  assumes "accurate fp" "9 \<le> x" "x \<le> 10"
  shows "double_to_int (rnd fp (x * c_log fp 2)) = Inr 6"
proof -
  let ?L = "c_log fp 2"
  note L = log_2_bounds [OF assms(1)]
  have L0: "0 \<le> ?L" using L(1) by linarith
  have "9 * ?L \<le> x * ?L" using assms(2) L0 by (intro mult_right_mono)
  then have a: "620937 / 100000 \<le> x * ?L" using L(1) by linarith
  have "x * ?L \<le> 10 * ?L" using assms(3) L0 by (intro mult_right_mono)
  then have b: "x * ?L \<le> 69757 / 10000" using L(2) by linarith
  have m: "\<bar>x * ?L\<bar> \<le> 69757 / 10000" using a b by linarith
  have g1: "1 / 10 ^ 10 \<le> \<bar>x * ?L\<bar>"
  proof -
    have "(1 / 10 ^ 10 :: real) \<le> 620937 / 100000" by simp
    also have "\<dots> \<le> \<bar>x * ?L\<bar>" using a by linarith
    finally show ?thesis .
  qed
  have g2: "\<bar>x * ?L\<bar> \<le> 10 ^ 12"
  proof -
    have "(69757 / 10000 :: real) \<le> 10 ^ 12" by simp
    with m show ?thesis by linarith
  qed
  have e: "\<bar>rnd fp (x * ?L) - x * ?L\<bar> \<le> \<bar>x * ?L\<bar> / 10000"
    by (rule accurate_rnd [OF assms(1) g1 g2])
  have lo: "6 \<le> rnd fp (x * ?L)"
    using approx_within(1) [OF e a b m] by linarith
  have hi: "rnd fp (x * ?L) < 7"
    using approx_within(2) [OF e a b m] by linarith
  have f: "\<lfloor>rnd fp (x * ?L)\<rfloor> = 6"
    using lo hi by (simp add: floor_eq_iff)
  have p: "0 \<le> rnd fp (x * ?L)" using lo by linarith
  show ?thesis
    unfolding double_to_int_def Let_def if_P [OF p] f by (simp add: INT_MAX_def)
qed

lemma hash_count_six:
  assumes "accurate fp" "1 \<le> n" "9 * n \<le> m" "m \<le> 10 * n"
  shows "hash_count fp m n = Inr 6" "\<lfloor>real_of_int m / real_of_int n * ln 2\<rfloor> = 6"
proof -
  have q1: "9 \<le> m div n"
    using assms(2,3) zdiv_mono1 [of "9 * n" m n] by simp
  have q2: "m div n \<le> 10"
    using assms(2,4) zdiv_mono1 [of m "10 * n" n] by simp
  have d: "int_div m n = Inr (m div n)"
    using assms(2,3) by (simp add: int_div_def sgn_if)
  have "double_to_int (rnd fp (real_of_int (m div n) * c_log fp 2)) = Inr 6"
    using q1 q2 by (intro rounded_product_six [OF assms(1)]) simp_all
  then show "hash_count fp m n = Inr 6"
    by (simp only: hash_count_def d sum.case)
  have n: "0 < real_of_int n" using assms(2) by simp
  have "real_of_int (9 * n) \<le> real_of_int m"
    using assms(3) by (simp only: of_int_le_iff)
  then have "9 * real_of_int n \<le> real_of_int m" by simp
  then have "9 \<le> real_of_int m / real_of_int n"
    using n by (simp add: pos_le_divide_eq)
  moreover have "real_of_int m \<le> real_of_int (10 * n)"
    using assms(4) by (simp only: of_int_le_iff)
  then have "real_of_int m \<le> 10 * real_of_int n" by simp
  then have "real_of_int m / real_of_int n \<le> 10"
    using n by (simp add: pos_divide_le_eq)
  ultimately show "\<lfloor>real_of_int m / real_of_int n * ln 2\<rfloor> = 6"
    by (rule floor_ln2_six)
qed

lemma calculateOptimalArraySize_one:
  assumes "accurate fp"
  shows "calculateOptimalArraySize fp 1 = Inr 10"
proof -
  have "9268 / 1000 \<le> size_quotient fp 1" "size_quotient fp 1 \<le> 9854 / 1000"
    using size_quotient_bounds [OF assms, of 1] by (simp_all add: INT_MAX_def)
  then have "\<lceil>size_quotient fp 1\<rceil> = 10"
    by (simp add: ceiling_eq_iff)
  then show ?thesis
    using calculateOptimalArraySize_eq [OF assms, of 1] by (simp add: INT_MAX_def)
qed

lemma calculateOptimalArraySize_zero:
  "accurate fp \<Longrightarrow> calculateOptimalArraySize fp 0 = Inr 0"
  using calculateOptimalArraySize_eq [of fp 0]
  by (simp add: size_quotient_zero INT_MAX_def)

lemma main_construct_zero:
  "accurate fp \<Longrightarrow> main_construct fp heap 0 = Inl DivisionByZero"
  by (simp add: main_construct_def calculateOptimalArraySize_zero hash_count_def int_div_def)

lemma main_construct_one:
  assumes "accurate fp"
  shows "main_construct fp heap 1 =
         Inr (Some \<lparr>size_m = 10, hashCount_k = 6, bits = map heap [0..<10]\<rparr>)"
proof -
  have k: "hash_count fp 10 1 = Inr 6"
    by (rule hash_count_six(1) [OF assms]) simp_all
  show ?thesis
    by (simp add: main_construct_def calculateOptimalArraySize_one [OF assms] k malloc_ints_def)
qed






section \<open>Properties of the filter\<close>

text \<open>
  C1. No false negatives: with a bit array of \<open>m \<ge> 1\<close> cells and the same \<open>k\<close>
  and \<open>m\<close> for insertion and lookup, \<open>insertWords\<close> returns, and \<open>lookUp\<close> on
  every inserted word then returns 1, whatever the array held before.
\<close>

theorem no_false_negatives:
  assumes "1 \<le> m" "m \<le> INT_MAX" "length bitArray = nat m"
  shows "\<exists>bitArray'. insertWords ppWordListArray bitArray m k = Inr bitArray' \<and>
           (\<forall>word \<in> set ppWordListArray. lookUp word bitArray' m k = Inr 1)"
proof -
  let ?S = "it_index m ` set (iteration_space ppWordListArray k)"
  let ?b = "set_cells ?S bitArray"
  have len: "length ?b = nat m" using assms(3) by simp
  have "lookUp word ?b m k = Inr 1" if w: "word \<in> set ppWordListArray" for word
  proof -
    have "?b ! hash_index word h m \<noteq> 0" if h: "h \<in> set (salts k)" for h
    proof -
      have "(word, h) \<in> set (iteration_space ppWordListArray k)"
        using w h by (simp add: iteration_space_def)
      then have "hash_index word h m \<in> ?S"
        by (force simp: it_index_def)
      moreover have "hash_index word h m < length bitArray"
        using hash_index_less [OF assms(1,2)] assms(3) by simp
      ultimately show ?thesis by (simp add: nth_set_cells)
    qed
    then show ?thesis by (simp add: lookUp_eq [OF assms(1,2) len])
  qed
  then show ?thesis
    by (simp add: insertWords_eq [OF assms])
qed

theorem no_false_negatives_witness:
  "(1::int) \<le> 3 \<and> 3 \<le> INT_MAX \<and> length [0, 0, 0 :: int] = nat 3 \<and>
   (\<exists>bitArray'. insertWords [[99, 97, 116]] [0, 0, 0] 3 2 = Inr bitArray' \<and>
      (\<forall>word \<in> set [[99, 97, 116]]. lookUp word bitArray' 3 2 = Inr 1))"
  using no_false_negatives [of 3 "[0, 0, 0]" "[[99, 97, 116]]" 2]
  by (simp add: INT_MAX_def)

text \<open>
  C2. The cells of the bit array at construction. \<open>main\<close> allocates the array with
  \<open>malloc\<close> and never clears it, so the cells hold what the allocator's memory
  held: with one word to insert the array has ten cells, each with the value the
  memory had. When that memory holds 1 everywhere, a query for a word that was
  never inserted counts as a false positive; when it holds 0, it does not.
\<close>

theorem bit_array_not_cleared:
  assumes "accurate fp"
  shows "main_construct fp heap 1 =
           Inr (Some \<lparr>size_m = 10, hashCount_k = 6, bits = map heap [0..<10]\<rparr>) \<and>
         main fp (\<lambda>i. 1) [[99, 97, 116]] [[100, 111, 103]] [0] =
           Inr (Some \<lparr>counts = \<lparr>fPositive = 1, fNegative = 0, totalPositive = 0, totalNegative = 1\<rparr>,
                      falseNegativePercentage = NaN,
                      falsePositivePercentage = percentage fp 1 1\<rparr>) \<and>
         main fp (\<lambda>i. 0) [[99, 97, 116]] [[100, 111, 103]] [0] =
           Inr (Some \<lparr>counts = \<lparr>fPositive = 0, fNegative = 0, totalPositive = 0, totalNegative = 1\<rparr>,
                      falseNegativePercentage = NaN,
                      falsePositivePercentage = percentage fp 0 1\<rparr>)"
proof -
  have u: "[0..<10] = [0, 1, 2, 3, 4, 5, 6, 7, 8, 9]"
    by (simp add: upt_rec)
  note c = main_construct_one [OF assms]
  have i1: "insertWords [[99, 97, 116]] [1, 1, 1, 1, 1, 1, 1, 1, 1, 1] 10 6 =
      Inr [1, 1, 1, 1, 1, 1, 1, 1, 1, 1]" by code_simp
  have i0: "insertWords [[99, 97, 116]] [0, 0, 0, 0, 0, 0, 0, 0, 0, 0] 10 6 =
      Inr [1, 0, 0, 1, 1, 0, 1, 0, 0, 1]" by code_simp
  have l1: "lookUp [100, 111, 103] [1, 1, 1, 1, 1, 1, 1, 1, 1, 1] 10 6 = Inr 1" by code_simp
  have l0: "lookUp [100, 111, 103] [1, 0, 0, 1, 1, 0, 1, 0, 0, 1] 10 6 = Inr 0" by code_simp
  have p: "percentage fp 0 0 = NaN" by (simp add: percentage_def)
  show ?thesis
    by (simp add: main_def c u i1 i0 l1 l0 testBloomWithQueries_def classify_def p)
qed

theorem bit_array_not_cleared_witness:
  "accurate exact \<and>
   main_construct exact (\<lambda>i. 1) 1 =
     Inr (Some \<lparr>size_m = 10, hashCount_k = 6, bits = [1, 1, 1, 1, 1, 1, 1, 1, 1, 1]\<rparr>) \<and>
   main exact (\<lambda>i. 1) [[99, 97, 116]] [[100, 111, 103]] [0] =
     Inr (Some \<lparr>counts = \<lparr>fPositive = 1, fNegative = 0, totalPositive = 0, totalNegative = 1\<rparr>,
                falseNegativePercentage = NaN, falsePositivePercentage = Finite 100\<rparr>) \<and>
   main exact (\<lambda>i. 0) [[99, 97, 116]] [[100, 111, 103]] [0] =
     Inr (Some \<lparr>counts = \<lparr>fPositive = 0, fNegative = 0, totalPositive = 0, totalNegative = 1\<rparr>,
                falseNegativePercentage = NaN, falsePositivePercentage = Finite 0\<rparr>)"
proof -
  have u: "map (\<lambda>i. 1 :: int) [0..<10] = [1, 1, 1, 1, 1, 1, 1, 1, 1, 1]"
    by (simp add: upt_rec)
  have p1: "percentage exact 1 1 = Finite 100" and p0: "percentage exact 0 1 = Finite 0"
    by (simp_all add: percentage_def exact_def)
  show ?thesis
    using bit_array_not_cleared [OF accurate_exact, of "\<lambda>i. 1"] accurate_exact
    by (simp add: u p1 p0)
qed

text \<open>
  C3. \<open>lookUp\<close> returns 1 exactly when, for every salt \<open>h\<close> in \<open>0..k-1\<close>, the cell
  at index \<open>APHashWithSalt(word, h, m)\<close> is set (non-zero, which is what \<open>&&\<close> tests;
  for cells that hold 0 or 1 this is "equals 1"); otherwise it returns 0; and for
  \<open>k = 0\<close> it returns 1 for every word.
\<close>

theorem lookUp_iff_all_bits_set:
  assumes "1 \<le> m" "m \<le> INT_MAX" "length bitArray = nat m"
  shows "(lookUp word bitArray m k = Inr 1 \<longleftrightarrow> (\<forall>h < nat k. bit_is_set bitArray word h m)) \<and>
         (lookUp word bitArray m k = Inr 1 \<or> lookUp word bitArray m k = Inr 0) \<and>
         (k = 0 \<longrightarrow> lookUp word bitArray m k = Inr 1)"
  by (auto simp: lookUp_eq [OF assms] bit_is_set_eq [OF assms] salts_def)

theorem lookUp_iff_all_bits_set_witness:
  "(1::int) \<le> 3 \<and> 3 \<le> INT_MAX \<and> length [1, 0, 1 :: int] = nat 3 \<and>
   (lookUp [99, 97, 116] [1, 0, 1] 3 2 = Inr 1 \<longleftrightarrow>
      (\<forall>h < nat 2. bit_is_set [1, 0, 1] [99, 97, 116] h 3)) \<and>
   (lookUp [99, 97, 116] [1, 0, 1] 3 2 = Inr 1 \<or> lookUp [99, 97, 116] [1, 0, 1] 3 2 = Inr 0) \<and>
   (0::int) = 0 \<and> lookUp [99, 97, 116] [1, 0, 1] 3 0 = Inr 1"
proof -
  have h1: "(1::int) \<le> 3" by simp
  have h2: "(3::int) \<le> INT_MAX" by (simp add: INT_MAX_def)
  have h3: "length [1, 0, 1 :: int] = nat 3" by simp
  show ?thesis
    using lookUp_iff_all_bits_set [OF h1 h2 h3, of "[99, 97, 116]" 2]
      lookUp_iff_all_bits_set [OF h1 h2 h3, of "[99, 97, 116]" 0] h1 h2 h3
    by blast
qed




text \<open>
  C5. The final bit array (or the failure, when \<open>m\<close> is 0 or the array is too
  short) is the same for every ordering of the iterations of the (word, salt)
  cross-product, and for every interleaving of the iterations that the static
  schedule gives to \<open>T \<ge> 1\<close> workers; \<open>T = 1\<close> is the sequential loop.
\<close>

theorem insertion_order_independent:
  "(\<forall>its. mset its = mset (iteration_space ppWordListArray k) \<longrightarrow>
      run_iterations its bitArray m = insertWords ppWordListArray bitArray m k) \<and>
   (\<forall>T its. 0 < T \<and> interleaving (static_schedule T (iteration_space ppWordListArray k)) its \<longrightarrow>
      run_iterations its bitArray m = insertWords ppWordListArray bitArray m k)"
proof -
  let ?space = "iteration_space ppWordListArray k"
  have perm: "run_iterations its bitArray m = insertWords ppWordListArray bitArray m k"
    if "mset its = mset ?space" for its
  proof -
    from that have "set its = set ?space"
      by (rule mset_eq_setD)
    moreover from that have "its = [] \<longleftrightarrow> ?space = []"
      by (metis mset_zero_iff)
    ultimately show ?thesis
      unfolding insertWords_def by (rule run_iterations_set)
  qed
  have "run_iterations its bitArray m = insertWords ppWordListArray bitArray m k"
    if "0 < T" "interleaving (static_schedule T ?space) its" for T its
  proof -
    have "mset its = mset ?space"
      using interleaving_mset [OF that(2)] static_schedule_mset [OF that(1)] by simp
    then show ?thesis by (rule perm)
  qed
  with perm show ?thesis by blast
qed

theorem insertion_order_independent_witness:
  "mset [([100, 111, 103], 1), ([99, 97, 116], 1), ([100, 111, 103], 0), ([99, 97, 116], 0)] =
     mset (iteration_space [[99, 97, 116], [100, 111, 103]] 2) \<and>
   run_iterations [([100, 111, 103], 1), ([99, 97, 116], 1), ([100, 111, 103], 0), ([99, 97, 116], 0)]
       [0, 0, 0, 0, 0, 0, 0, 0, 0, 0] 10 =
     insertWords [[99, 97, 116], [100, 111, 103]] [0, 0, 0, 0, 0, 0, 0, 0, 0, 0] 10 2 \<and>
   (0::nat) < 3 \<and>
   interleaving (static_schedule 3 (iteration_space [[99, 97, 116], [100, 111, 103]] 2))
     [([100, 111, 103], 0), ([99, 97, 116], 1), ([99, 97, 116], 0), ([100, 111, 103], 1)] \<and>
   run_iterations [([100, 111, 103], 0), ([99, 97, 116], 1), ([99, 97, 116], 0), ([100, 111, 103], 1)]
       [0, 0, 0, 0, 0, 0, 0, 0, 0, 0] 10 =
     insertWords [[99, 97, 116], [100, 111, 103]] [0, 0, 0, 0, 0, 0, 0, 0, 0, 0] 10 2"
proof -
  have p: "mset [([100, 111, 103], 1), ([99, 97, 116], 1), ([100, 111, 103], 0), ([99, 97, 116], 0)] =
     mset (iteration_space [[99, 97, 116], [100, 111, 103]] 2)"
    by code_simp
  have t: "(0::nat) < 3" by simp
  have i: "interleaving (static_schedule 3 (iteration_space [[99, 97, 116], [100, 111, 103]] 2))
     [([100, 111, 103], 0), ([99, 97, 116], 1), ([99, 97, 116], 0), ([100, 111, 103], 1)]"
    by code_simp
  show ?thesis
    using insertion_order_independent
      [of "[[99, 97, 116], [100, 111, 103]]" 2 "[0, 0, 0, 0, 0, 0, 0, 0, 0, 0]" 10] p t i
    by blast
qed

text \<open>
  C6. Insertion is monotone: a word that \<open>lookUp\<close> reports as possibly present is
  still reported so after any further call of \<open>insertWords\<close>; a cell that holds 1
  keeps 1, a set cell stays set, and a cell that changes becomes 1.
\<close>

theorem insert_monotone:
  assumes "1 \<le> m" "m \<le> INT_MAX" "length bitArray = nat m"
    and "lookUp e bitArray m k = Inr 1"
  shows "\<exists>bitArray'. insertWords ppWordListArray bitArray m k = Inr bitArray' \<and>
           lookUp e bitArray' m k = Inr 1 \<and>
           length bitArray' = length bitArray \<and>
           (\<forall>i < length bitArray.
              (bitArray ! i = 1 \<longrightarrow> bitArray' ! i = 1) \<and>
              (bitArray ! i \<noteq> 0 \<longrightarrow> bitArray' ! i \<noteq> 0) \<and>
              (bitArray' ! i \<noteq> bitArray ! i \<longrightarrow> bitArray' ! i = 1))"
proof -
  let ?b = "set_cells (it_index m ` set (iteration_space ppWordListArray k)) bitArray"
  have len: "length ?b = nat m" using assms(3) by simp
  have idx: "hash_index e h m < length bitArray" for h
    using hash_index_less [OF assms(1,2)] assms(3) by simp
  from assms(4) have "\<forall>h \<in> set (salts k). bitArray ! hash_index e h m \<noteq> 0"
    by (simp add: lookUp_eq [OF assms(1-3)] split: if_splits)
  then have "\<forall>h \<in> set (salts k). ?b ! hash_index e h m \<noteq> 0"
    using idx by (simp add: nth_set_cells)
  then have "lookUp e ?b m k = Inr 1"
    by (simp add: lookUp_eq [OF assms(1,2) len])
  then show ?thesis
    by (simp add: insertWords_eq [OF assms(1-3)] nth_set_cells)
qed

theorem insert_monotone_witness:
  "(1::int) \<le> 10 \<and> 10 \<le> INT_MAX \<and>
   length [1, 0, 0, 1, 1, 0, 1, 0, 0, 1 :: int] = nat 10 \<and>
   lookUp [99, 97, 116] [1, 0, 0, 1, 1, 0, 1, 0, 0, 1] 10 6 = Inr 1 \<and>
   (\<exists>bitArray'. insertWords [[100, 111, 103]] [1, 0, 0, 1, 1, 0, 1, 0, 0, 1] 10 6 = Inr bitArray' \<and>
      lookUp [99, 97, 116] bitArray' 10 6 = Inr 1 \<and>
      length bitArray' = length [1, 0, 0, 1, 1, 0, 1, 0, 0, 1 :: int] \<and>
      (\<forall>i < length [1, 0, 0, 1, 1, 0, 1, 0, 0, 1 :: int].
         ([1, 0, 0, 1, 1, 0, 1, 0, 0, 1] ! i = (1::int) \<longrightarrow> bitArray' ! i = 1) \<and>
         ([1, 0, 0, 1, 1, 0, 1, 0, 0, 1] ! i \<noteq> (0::int) \<longrightarrow> bitArray' ! i \<noteq> 0) \<and>
         (bitArray' ! i \<noteq> [1, 0, 0, 1, 1, 0, 1, 0, 0, 1] ! i \<longrightarrow> bitArray' ! i = 1)))"
proof -
  have h1: "(1::int) \<le> 10" by simp
  have h2: "(10::int) \<le> INT_MAX" by (simp add: INT_MAX_def)
  have h3: "length [1, 0, 0, 1, 1, 0, 1, 0, 0, 1 :: int] = nat 10" by simp
  have h4: "lookUp [99, 97, 116] [1, 0, 0, 1, 1, 0, 1, 0, 0, 1] 10 6 = Inr 1" by code_simp
  show ?thesis
    using insert_monotone [OF h1 h2 h3 h4, of "[[100, 111, 103]]"] h1 h2 h3 h4 by blast
qed

text \<open>
  C7. For every string, salt and positive modulus \<open>m\<close> of type \<open>int\<close>, the value
  that \<open>APHashWithSalt\<close> returns is the one of the description (\<open>spec_hash\<close>: the
  accumulator starts at the salt, each character is mixed by its position with the
  odd or the even step in 32-bit wrapping arithmetic, the result is reduced modulo
  \<open>m\<close>) and lies in \<open>[0, m)\<close>.
\<close>

theorem APHashWithSalt_spec:
  assumes "1 \<le> m" "m \<le> INT_MAX"
  shows "\<exists>hash. APHashWithSalt str salt m = Inr hash \<and>
           unat hash = spec_hash str salt (nat m) \<and> unat hash < nat m"
proof -
  have nz: "(word_of_int m :: uint) \<noteq> 0"
    by (rule word_of_m_nonzero [OF assms])
  have "unat (APHash_loop str 0 salt mod (word_of_int m :: uint)) =
        unat (APHash_loop str 0 salt) mod nat m"
    by (simp add: unat_mod unat_word_of_m [OF assms])
  moreover have "APHash_loop str 0 salt = foldl spec_step salt (enumerate 0 (characters str))"
    by (simp add: APHash_loop_foldl characters_def)
  moreover have "unat (APHash_loop str 0 salt) mod nat m < nat m"
    using assms(1) by simp
  ultimately show ?thesis
    by (simp add: APHashWithSalt_Inr [OF nz] spec_hash_def)
qed

theorem APHashWithSalt_spec_witness:
  "(1::int) \<le> 10 \<and> 10 \<le> INT_MAX \<and>
   (\<exists>hash. APHashWithSalt [99, 97, 116] 0 10 = Inr hash \<and>
      unat hash = spec_hash [99, 97, 116] 0 (nat 10) \<and> unat hash < nat 10) \<and>
   APHashWithSalt [99, 97, 116] 0 10 = Inr 9"
proof -
  have h1: "(1::int) \<le> 10" by simp
  have h2: "(10::int) \<le> INT_MAX" by (simp add: INT_MAX_def)
  have v: "APHashWithSalt [99, 97, 116] 0 10 = Inr 9" by code_simp
  show ?thesis
    using APHashWithSalt_spec [OF h1 h2, of "[99, 97, 116]" 0] h1 h2 v by blast
qed

text \<open>
  C8. With a bit array of \<open>m \<ge> 1\<close> cells, \<open>testBloomWithQueries\<close> returns; its
  \<open>fNegative\<close> is the number of queries with ground truth 1 on which \<open>lookUp\<close>
  returns 0, its \<open>fPositive\<close> the number of queries with ground truth 0 on which
  \<open>lookUp\<close> returns 1, \<open>totalPositive\<close> and \<open>totalNegative\<close> count the queries of
  either ground truth; the two percentages are \<open>fNegative / totalPositive * 100\<close>
  and \<open>fPositive / totalNegative * 100\<close>, computed in \<open>double\<close>, when the divisor is
  not zero; and every reordering of the queries gives the same report.
\<close>

theorem evaluator_counts:
  assumes "1 \<le> m" "m \<le> INT_MAX" "length bitArray = nat m"
  shows "\<exists>r. testBloomWithQueries fp bitArray words expected m k = Inr r \<and>
           fNegative (counts r) =
             int (length (filter (\<lambda>q. snd q = 1 \<and> lookUp (fst q) bitArray m k = Inr 0)
                    (zip words expected))) \<and>
           fPositive (counts r) =
             int (length (filter (\<lambda>q. snd q = 0 \<and> lookUp (fst q) bitArray m k = Inr 1)
                    (zip words expected))) \<and>
           totalPositive (counts r) = int (length (filter (\<lambda>q. snd q = 1) (zip words expected))) \<and>
           totalNegative (counts r) = int (length (filter (\<lambda>q. snd q = 0) (zip words expected))) \<and>
           (totalPositive (counts r) \<noteq> 0 \<longrightarrow>
              falseNegativePercentage r =
                Finite (rnd fp (rnd fp (real_of_int (fNegative (counts r)) /
                                        real_of_int (totalPositive (counts r))) * 100))) \<and>
           (totalNegative (counts r) \<noteq> 0 \<longrightarrow>
              falsePositivePercentage r =
                Finite (rnd fp (rnd fp (real_of_int (fPositive (counts r)) /
                                        real_of_int (totalNegative (counts r))) * 100))) \<and>
           (\<forall>words' expected'. mset (zip words' expected') = mset (zip words expected) \<longrightarrow>
              testBloomWithQueries fp bitArray words' expected' m k = Inr r)"
proof -
  let ?t = "tally bitArray m k (zip words expected)"
  let ?r = "\<lparr>counts = ?t,
             falseNegativePercentage = percentage fp (fNegative ?t) (totalPositive ?t),
             falsePositivePercentage = percentage fp (fPositive ?t) (totalNegative ?t)\<rparr>"
  have r: "testBloomWithQueries fp bitArray words expected m k = Inr ?r"
    by (rule testBloomWithQueries_eq [OF assms])
  have perm: "testBloomWithQueries fp bitArray words' expected' m k = Inr ?r"
    if "mset (zip words' expected') = mset (zip words expected)" for words' expected'
    using tally_mset [OF that, of bitArray m k]
    by (simp add: testBloomWithQueries_eq [OF assms])
  have fn: "fNegative ?t =
      int (length (filter (\<lambda>q. snd q = 1 \<and> lookUp (fst q) bitArray m k = Inr 0) (zip words expected)))"
    by (simp add: tally_def false_negative_def [abs_def])
  have fp: "fPositive ?t =
      int (length (filter (\<lambda>q. snd q = 0 \<and> lookUp (fst q) bitArray m k = Inr 1) (zip words expected)))"
    by (simp add: tally_def false_positive_def [abs_def])
  have tp: "totalPositive ?t = int (length (filter (\<lambda>q. snd q = 1) (zip words expected)))"
    by (simp add: tally_def)
  have tn: "totalNegative ?t = int (length (filter (\<lambda>q. snd q = 0) (zip words expected)))"
    by (simp add: tally_def)
  have pn: "totalPositive ?t \<noteq> 0 \<longrightarrow> percentage fp (fNegative ?t) (totalPositive ?t) =
      Finite (rnd fp (rnd fp (real_of_int (fNegative ?t) / real_of_int (totalPositive ?t)) * 100))"
    by (simp add: percentage_def)
  have pp: "totalNegative ?t \<noteq> 0 \<longrightarrow> percentage fp (fPositive ?t) (totalNegative ?t) =
      Finite (rnd fp (rnd fp (real_of_int (fPositive ?t) / real_of_int (totalNegative ?t)) * 100))"
    by (simp add: percentage_def)
  show ?thesis
  proof (intro exI conjI)
    show "testBloomWithQueries fp bitArray words expected m k = Inr ?r" by (rule r)
  qed (use fn fp tp tn pn pp perm in simp_all)
qed

theorem evaluator_counts_witness:
  "(1::int) \<le> 10 \<and> 10 \<le> INT_MAX \<and>
   length [1, 0, 0, 1, 1, 0, 1, 0, 0, 1 :: int] = nat 10 \<and>
   mset (zip [[100, 111, 103], [99, 97, 116], [99, 97, 116]] [0, 0, 1 :: int]) =
     mset (zip [[99, 97, 116], [100, 111, 103], [99, 97, 116]] [1, 0, 0 :: int]) \<and>
   (\<exists>r. testBloomWithQueries exact [1, 0, 0, 1, 1, 0, 1, 0, 0, 1]
            [[99, 97, 116], [100, 111, 103], [99, 97, 116]] [1, 0, 0] 10 6 = Inr r \<and>
        fNegative (counts r) = 0 \<and> fPositive (counts r) = 1 \<and>
        totalPositive (counts r) = 1 \<and> totalNegative (counts r) = 2 \<and>
        totalPositive (counts r) \<noteq> 0 \<and> falseNegativePercentage r = Finite 0 \<and>
        totalNegative (counts r) \<noteq> 0 \<and> falsePositivePercentage r = Finite 50 \<and>
        testBloomWithQueries exact [1, 0, 0, 1, 1, 0, 1, 0, 0, 1]
            [[100, 111, 103], [99, 97, 116], [99, 97, 116]] [0, 0, 1] 10 6 = Inr r)"
proof -
  let ?b = "[1, 0, 0, 1, 1, 0, 1, 0, 0, 1 :: int]"
  let ?cat = "[99, 97, 116] :: cstring"
  let ?dog = "[100, 111, 103] :: cstring"
  have h1: "(1::int) \<le> 10" by simp
  have h2: "(10::int) \<le> INT_MAX" by (simp add: INT_MAX_def)
  have h3: "length ?b = nat 10" by simp
  have p: "mset (zip [?dog, ?cat, ?cat] [0, 0, 1 :: int]) = mset (zip [?cat, ?dog, ?cat] [1, 0, 0 :: int])"
    by simp
  have c: "lookUp ?cat ?b 10 6 = Inr 1" by code_simp
  have d: "lookUp ?dog ?b 10 6 = Inr 0" by code_simp
  from evaluator_counts [OF h1 h2 h3, of exact "[?cat, ?dog, ?cat]" "[1, 0, 0]" 6]
  obtain r where r: "testBloomWithQueries exact ?b [?cat, ?dog, ?cat] [1, 0, 0] 10 6 = Inr r"
    and fn: "fNegative (counts r) =
        int (length (filter (\<lambda>q. snd q = 1 \<and> lookUp (fst q) ?b 10 6 = Inr 0)
               (zip [?cat, ?dog, ?cat] [1, 0, 0 :: int])))"
    and fp: "fPositive (counts r) =
        int (length (filter (\<lambda>q. snd q = 0 \<and> lookUp (fst q) ?b 10 6 = Inr 1)
               (zip [?cat, ?dog, ?cat] [1, 0, 0 :: int])))"
    and tp: "totalPositive (counts r) = int (length (filter (\<lambda>q. snd q = 1) (zip [?cat, ?dog, ?cat] [1, 0, 0 :: int])))"
    and tn: "totalNegative (counts r) = int (length (filter (\<lambda>q. snd q = 0) (zip [?cat, ?dog, ?cat] [1, 0, 0 :: int])))"
    and pn: "totalPositive (counts r) \<noteq> 0 \<longrightarrow> falseNegativePercentage r =
        Finite (rnd exact (rnd exact (real_of_int (fNegative (counts r)) /
                                      real_of_int (totalPositive (counts r))) * 100))"
    and pp: "totalNegative (counts r) \<noteq> 0 \<longrightarrow> falsePositivePercentage r =
        Finite (rnd exact (rnd exact (real_of_int (fPositive (counts r)) /
                                      real_of_int (totalNegative (counts r))) * 100))"
    and perm: "\<forall>words' expected'. mset (zip words' expected') = mset (zip [?cat, ?dog, ?cat] [1, 0, 0 :: int]) \<longrightarrow>
        testBloomWithQueries exact ?b words' expected' 10 6 = Inr r"
    by (elim exE conjE) (rule that, assumption+)
  have fn0: "fNegative (counts r) = 0" unfolding fn by (simp add: c d)
  have fp1: "fPositive (counts r) = 1" unfolding fp by (simp add: c d)
  have tp1: "totalPositive (counts r) = 1" unfolding tp by simp
  have tn2: "totalNegative (counts r) = 2" unfolding tn by simp
  have pn0: "falseNegativePercentage r = Finite 0" using pn by (simp add: fn0 tp1 exact_def)
  have pp50: "falsePositivePercentage r = Finite 50" using pp by (simp add: fp1 tn2 exact_def)
  have r': "testBloomWithQueries exact ?b [?dog, ?cat, ?cat] [0, 0, 1] 10 6 = Inr r"
    using perm p by blast
  show ?thesis
    using h1 h2 h3 p r fn0 fp1 tp1 tn2 pn0 pp50 r' by (intro conjI exI [of _ r]) simp_all
qed

text \<open>
  C9. The run with no word to insert. The size is 0, and \<open>m/numToInsert\<close> divides
  the \<open>int\<close> 0 by the \<open>int\<close> 0: the run ends in the division by zero, before
  the array is allocated, whatever the memory and the queries are.
\<close>

theorem empty_input_crashes:
  assumes "accurate fp"
  shows "main fp heap [] queries expected = Inl DivisionByZero"
  by (simp add: main_def main_construct_zero [OF assms])

theorem empty_input_crashes_witness:
  "accurate exact \<and> main exact (\<lambda>i. 0) [] [[100, 111, 103]] [0] = Inl DivisionByZero"
  using empty_input_crashes [OF accurate_exact] accurate_exact by blast

text \<open>
  C10. With a bit array of \<open>m \<ge> 1\<close> cells, every hash is computed (no division by
  zero) and, read as unsigned or as \<open>int\<close>, lies in \<open>[0, m)\<close>; every iteration of
  \<open>insertWords\<close> stores the value 1 at such an index inside the array, so
  \<open>insertWords\<close> returns an array of the same length whose cells are the old ones
  or 1; and \<open>lookUp\<close> reads inside the array and returns.
\<close>

theorem accesses_in_bounds:
  assumes "1 \<le> m" "m \<le> INT_MAX" "length bitArray = nat m"
  shows "(\<forall>word salt. \<exists>hash. APHashWithSalt word salt m = Inr hash \<and>
            unat hash < nat m \<and> 0 \<le> sint hash \<and> sint hash < m) \<and>
         (\<forall>it. \<exists>hash. APHashWithSalt (fst it) (of_nat (snd it)) m = Inr hash \<and>
            unat hash < length bitArray \<and>
            insert_iteration bitArray m it = Inr (bitArray[unat hash := 1])) \<and>
         (\<exists>bitArray'. insertWords ppWordListArray bitArray m k = Inr bitArray' \<and>
            length bitArray' = length bitArray \<and>
            (\<forall>i < length bitArray. bitArray' ! i = bitArray ! i \<or> bitArray' ! i = 1)) \<and>
         (\<exists>r. lookUp word bitArray m k = Inr r)"
proof -
  have nz: "(word_of_int m :: uint) \<noteq> 0"
    by (rule word_of_m_nonzero [OF assms(1,2)])
  have lt: "unat (APHash_loop w 0 s mod (word_of_int m :: uint)) < nat m" for w s
    using unat_mod_less [OF nz] unat_word_of_m [OF assms(1,2)] by simp
  have a: "\<exists>hash. APHashWithSalt w s m = Inr hash \<and>
            unat hash < nat m \<and> 0 \<le> sint hash \<and> sint hash < m" for w s
  proof -
    let ?x = "APHash_loop w 0 s mod (word_of_int m :: uint)"
    have i: "int (unat ?x) < m"
      using lt [of w s] by linarith
    have s: "sint ?x = int (unat ?x)"
      by (rule sint_hash_index [OF assms(1,2)])
    have p: "0 \<le> sint ?x"
      unfolding s by (rule of_nat_0_le_iff)
    have q: "sint ?x < m"
      unfolding s by (rule i)
    have "APHashWithSalt w s m = Inr ?x"
      by (rule APHashWithSalt_Inr [OF nz])
    with lt [of w s] p q show ?thesis by blast
  qed
  have b: "\<exists>hash. APHashWithSalt (fst it) (of_nat (snd it)) m = Inr hash \<and>
            unat hash < length bitArray \<and>
            insert_iteration bitArray m it = Inr (bitArray[unat hash := 1])" for it
    using lt [of "fst it" "of_nat (snd it)"] assms(3)
    by (simp add: APHashWithSalt_Inr [OF nz] insert_iteration_def)
  have c: "\<exists>bitArray'. insertWords ppWordListArray bitArray m k = Inr bitArray' \<and>
            length bitArray' = length bitArray \<and>
            (\<forall>i < length bitArray. bitArray' ! i = bitArray ! i \<or> bitArray' ! i = 1)"
    by (simp add: insertWords_eq [OF assms] nth_set_cells)
  have d: "\<exists>r. lookUp word bitArray m k = Inr r"
    by (simp add: lookUp_eq [OF assms])
  from a b c d show ?thesis by blast
qed

theorem accesses_in_bounds_witness:
  "(1::int) \<le> 10 \<and> 10 \<le> INT_MAX \<and>
   length [0, 0, 0, 0, 0, 0, 0, 0, 0, 0 :: int] = nat 10 \<and>
   (\<exists>bitArray'. insertWords [[99, 97, 116]] [0, 0, 0, 0, 0, 0, 0, 0, 0, 0] 10 6 = Inr bitArray' \<and>
      length bitArray' = length [0, 0, 0, 0, 0, 0, 0, 0, 0, 0 :: int] \<and>
      (\<forall>i < length [0, 0, 0, 0, 0, 0, 0, 0, 0, 0 :: int].
         bitArray' ! i = [0, 0, 0, 0, 0, 0, 0, 0, 0, 0] ! i \<or> bitArray' ! i = 1)) \<and>
   (\<exists>r. lookUp [100, 111, 103] [0, 0, 0, 0, 0, 0, 0, 0, 0, 0] 10 6 = Inr r) \<and>
   insertWords [[99, 97, 116]] [0, 0, 0, 0, 0, 0, 0, 0, 0, 0] 10 6 =
     Inr [1, 0, 0, 1, 1, 0, 1, 0, 0, 1]"
proof -
  have h1: "(1::int) \<le> 10" by simp
  have h2: "(10::int) \<le> INT_MAX" by (simp add: INT_MAX_def)
  have h3: "length [0, 0, 0, 0, 0, 0, 0, 0, 0, 0 :: int] = nat 10" by simp
  have i: "insertWords [[99, 97, 116]] [0, 0, 0, 0, 0, 0, 0, 0, 0, 0] 10 6 =
     Inr [1, 0, 0, 1, 1, 0, 1, 0, 0, 1]" by code_simp
  show ?thesis
    using accesses_in_bounds [OF h1 h2 h3, of "[[99, 97, 116]]" 6 "[100, 111, 103]"] h1 h2 h3 i
    by blast
qed

end
